theory Spec2Isabelle
  imports Complex_Main "HOL-Library.Product_Lexorder" "HOL-Library.Log_Nat"
begin

section \<open>Python values used by planner.py\<close>

text \<open>
  Exceptions are values. Every \<^verbatim>\<open>raise\<close> that the modelled code can reach is a
  constructor of \<open>py_error\<close>; a fallible operation returns \<open>py_error + 'a\<close> with
  \<open>Inl\<close> for the exception.
\<close>

datatype py_error =
    ValueError
  | TypeError
  | KeyError
  | IndexError
  | ZeroDivisionError
  | FileNotFoundError
  | CsvError

text \<open>
  A Python \<^verbatim>\<open>dict\<close> keeps its keys in insertion order, so it is an association list
  with distinct keys. \<open>dict_get\<close> is \<^verbatim>\<open>d.get(k)\<close>, \<open>dict_set\<close> is \<^verbatim>\<open>d[k] = v\<close>
  (overwrite in place, or append a new key), \<open>dict_pop\<close> is \<^verbatim>\<open>d.pop(k, None)\<close>
  and \<open>dict_keys\<close> is \<^verbatim>\<open>d.keys()\<close>. Python's \<^verbatim>\<open>==\<close> on dicts ignores the order:
  it is equality of \<open>dict_get\<close>.
\<close>

type_synonym ('k, 'v) dict = "('k \<times> 'v) list"

fun dict_get :: "('k, 'v) dict \<Rightarrow> 'k \<Rightarrow> 'v option" where
  "dict_get [] k = None"
| "dict_get ((k', v) # d) k = (if k' = k then Some v else dict_get d k)"

fun dict_set :: "('k, 'v) dict \<Rightarrow> 'k \<Rightarrow> 'v \<Rightarrow> ('k, 'v) dict" where
  "dict_set [] k v = [(k, v)]"
| "dict_set ((k', v') # d) k v = (if k' = k then (k, v) # d else (k', v') # dict_set d k v)"

fun dict_pop :: "('k, 'v) dict \<Rightarrow> 'k \<Rightarrow> ('k, 'v) dict" where
  "dict_pop [] k = []"
| "dict_pop ((k', v') # d) k = (if k' = k then d else (k', v') # dict_pop d k)"

definition dict_keys :: "('k, 'v) dict \<Rightarrow> 'k list" where
  "dict_keys d = map fst d"

definition dict_contains :: "('k, 'v) dict \<Rightarrow> 'k \<Rightarrow> bool" where
  "dict_contains d k = (k \<in> set (dict_keys d))"

section \<open>ScheduleCanvas: one participant's availability\<close>

text \<open>A grid cell is the pair \<^verbatim>\<open>(day, hour)\<close> of Python integers.\<close>

type_synonym cell = "int \<times> int"

definition DAYS :: "string list" where
  "DAYS = [''Monday'', ''Tuesday'', ''Wednesday'', ''Thursday'', ''Friday'', ''Saturday'', ''Sunday'']"

definition START_HOUR :: int where
  "START_HOUR = 9"

definition END_HOUR :: int where
  "END_HOUR = 20"

definition cell_width :: int where
  "cell_width = 100"

definition cell_height :: int where
  "cell_height = 40"

definition header_height :: int where
  "header_height = 30"

definition time_width :: int where
  "time_width = 60"

text \<open>The valid grid range of the data model: day 0..6 and hour 9..19.\<close>

definition in_grid :: "cell \<Rightarrow> bool" where
  "in_grid c = (0 \<le> fst c \<and> fst c < int (length DAYS) \<and> START_HOUR \<le> snd c \<and> snd c < END_HOUR)"

datatype drag_mode = Select | Deselect

text \<open>
  The fields of \<^verbatim>\<open>ScheduleCanvas\<close> that its handlers read and write. The field
  \<open>schedule\<close> is the dict \<^verbatim>\<open>{(day_index, hour): True/False}\<close>.
\<close>

record schedule_canvas =
  editable :: bool
  schedule :: "(cell, bool) dict"
  drag_start :: "cell option"
  drag_current :: "cell option"
  drag_mode :: "drag_mode option"

definition new_canvas :: "bool \<Rightarrow> schedule_canvas" where
  "new_canvas e = \<lparr>editable = e, schedule = [], drag_start = None, drag_current = None,
     drag_mode = None\<rparr>"

text \<open>\<^verbatim>\<open>get_cell_at(x, y)\<close>: Python's \<^verbatim>\<open>//\<close> is floor division, as \<open>div\<close> on \<open>int\<close>.\<close>

definition get_cell_at :: "int \<Rightarrow> int \<Rightarrow> cell option" where
  "get_cell_at x y =
     (if x < time_width \<or> y < header_height then None
      else let day = (x - time_width) div cell_width;
               hour = (y - header_height) div cell_height + START_HOUR
           in if 0 \<le> day \<and> day < int (length DAYS) \<and> START_HOUR \<le> hour \<and> hour < END_HOUR
              then Some (day, hour) else None)"

text \<open>\<^verbatim>\<open>self.schedule.get(cell)\<close> used as a condition: a missing key gives \<^verbatim>\<open>None\<close>.\<close>

definition is_selected :: "(cell, bool) dict \<Rightarrow> cell \<Rightarrow> bool" where
  "is_selected d c = (case dict_get d c of None \<Rightarrow> False | Some v \<Rightarrow> v)"

definition on_mouse_down :: "schedule_canvas \<Rightarrow> int \<Rightarrow> int \<Rightarrow> schedule_canvas" where
  "on_mouse_down c x y =
     (if \<not> editable c then c
      else case get_cell_at x y of
             None \<Rightarrow> c
           | Some cell \<Rightarrow>
               c\<lparr>drag_start := Some cell, drag_current := Some cell,
                 drag_mode := Some (if is_selected (schedule c) cell then Deselect else Select)\<rparr>)"

definition on_mouse_drag :: "schedule_canvas \<Rightarrow> int \<Rightarrow> int \<Rightarrow> schedule_canvas" where
  "on_mouse_drag c x y =
     (case drag_start c of
        None \<Rightarrow> c
      | Some start \<Rightarrow>
          if \<not> editable c then c
          else case get_cell_at x y of
                 None \<Rightarrow> c
               | Some cell \<Rightarrow> if fst cell = fst start then c\<lparr>drag_current := Some cell\<rparr> else c)"

text \<open>
  The loop of \<^verbatim>\<open>on_mouse_up\<close> over \<^verbatim>\<open>range(start_hour, end_hour + 1)\<close>: every hour
  of the dragged run is stored as \<^verbatim>\<open>True\<close> or popped.
\<close>

definition apply_drag :: "drag_mode option \<Rightarrow> int \<Rightarrow> (cell, bool) dict \<Rightarrow> int \<Rightarrow> (cell, bool) dict" where
  "apply_drag m day d hour =
     (if m = Some Select then dict_set d (day, hour) True else dict_pop d (day, hour))"

definition on_mouse_up :: "schedule_canvas \<Rightarrow> schedule_canvas" where
  "on_mouse_up c =
     (case drag_start c of
        None \<Rightarrow> c
      | Some start \<Rightarrow>
          if \<not> editable c then c
          else
            (case drag_current c of
               None \<Rightarrow> c
             | Some cur \<Rightarrow>
                 c\<lparr>schedule :=
                     foldl (apply_drag (drag_mode c) (fst start)) (schedule c)
                       [min (snd start) (snd cur) .. max (snd start) (snd cur)]\<rparr>)
            \<lparr>drag_start := None, drag_current := None, drag_mode := None\<rparr>)"

definition clear_schedule :: "schedule_canvas \<Rightarrow> schedule_canvas" where
  "clear_schedule c = c\<lparr>schedule := []\<rparr>"

text \<open>\<^verbatim>\<open>sorted(self.schedule.keys())\<close>: tuples are ordered lexicographically.\<close>

definition get_schedule_data :: "schedule_canvas \<Rightarrow> cell list" where
  "get_schedule_data c = sort (dict_keys (schedule c))"

definition set_schedule_data :: "schedule_canvas \<Rightarrow> cell list \<Rightarrow> schedule_canvas" where
  "set_schedule_data c data = c\<lparr>schedule := foldl (\<lambda>d cell. dict_set d cell True) [] data\<rparr>"

text \<open>A click without a drag: button press and release at the same pixel.\<close>

definition click :: "schedule_canvas \<Rightarrow> int \<Rightarrow> int \<Rightarrow> schedule_canvas" where
  "click c x y = on_mouse_up (on_mouse_down c x y)"

text \<open>
  What every writer of \<open>schedule\<close> maintains: keys are distinct (it is a dict) and
  every stored value is \<^verbatim>\<open>True\<close>.
\<close>

definition schedule_ok :: "(cell, bool) dict \<Rightarrow> bool" where
  "schedule_ok d = (distinct (dict_keys d) \<and> list_all snd d)"

section \<open>Strings and integers\<close>

text \<open>
  \<^verbatim>\<open>str(n)\<close> for a Python \<^verbatim>\<open>int\<close>: decimal digits, most significant first, with a
  leading minus sign for a negative number.
\<close>

definition digit_char :: "nat \<Rightarrow> char" where
  "digit_char n = ''0123456789'' ! n"

function str_nat :: "nat \<Rightarrow> string" where
  "str_nat n = (if n < 10 then [digit_char n] else str_nat (n div 10) @ [digit_char (n mod 10)])"
  by pat_completeness auto
termination
  by (relation "measure id") auto

declare str_nat.simps [simp del]

definition str_int :: "int \<Rightarrow> string" where
  "str_int i = (if i < 0 then CHR ''-'' # str_nat (nat (- i)) else str_nat (nat i))"

text \<open>
  \<^verbatim>\<open>int(s)\<close> for a string: surrounding whitespace is stripped, one sign is allowed,
  then decimal digits follow, where a single underscore may stand between two digits.
  Anything else is \<^verbatim>\<open>ValueError\<close>; \<^verbatim>\<open>int(None)\<close> is \<^verbatim>\<open>TypeError\<close>. Characters are
  bytes here, so only the ASCII digits and the ASCII whitespace of Python are recognised.
\<close>

definition is_space :: "char \<Rightarrow> bool" where
  "is_space c = (c \<in> {CHR '' '', CHR 0x09, CHR 0x0A, CHR 0x0B, CHR 0x0C, CHR 0x0D,
                       CHR 0x1C, CHR 0x1D, CHR 0x1E, CHR 0x1F})"

definition strip :: "string \<Rightarrow> string" where
  "strip s = rev (dropWhile is_space (rev (dropWhile is_space s)))"

definition is_digit :: "char \<Rightarrow> bool" where
  "is_digit c = (c \<in> set ''0123456789'')"

definition digit_val :: "char \<Rightarrow> nat" where
  "digit_val c = of_char c - 48"

fun digits_val :: "nat \<Rightarrow> string \<Rightarrow> nat option" where
  "digits_val acc [] = Some acc"
| "digits_val acc (c # cs) =
     (if is_digit c then digits_val (10 * acc + digit_val c) cs
      else if c = CHR ''_'' \<and> cs \<noteq> [] \<and> is_digit (hd cs) then digits_val acc cs
      else None)"

definition parse_nat :: "string \<Rightarrow> nat option" where
  "parse_nat s =
     (case s of
        [] \<Rightarrow> None
      | c # cs \<Rightarrow> if is_digit c then digits_val (digit_val c) cs else None)"

definition parse_int :: "string \<Rightarrow> int option" where
  "parse_int s =
     (case strip s of
        [] \<Rightarrow> None
      | c # cs \<Rightarrow>
          if c = CHR ''-'' then map_option (\<lambda>n. - int n) (parse_nat cs)
          else if c = CHR ''+'' then map_option int (parse_nat cs)
          else map_option int (parse_nat (c # cs)))"

definition py_int :: "string option \<Rightarrow> py_error + int" where
  "py_int v =
     (case v of
        None \<Rightarrow> Inl TypeError
      | Some s \<Rightarrow> (case parse_int s of None \<Rightarrow> Inl ValueError | Some i \<Rightarrow> Inr i))"

text \<open>\<^verbatim>\<open>f"{hour:02d}"\<close>: zero-padded to two characters; the sign counts as one.\<close>

definition fmt_02d :: "int \<Rightarrow> string" where
  "fmt_02d i = (if 0 \<le> i \<and> i < 10 then CHR ''0'' # str_int i else str_int i)"

text \<open>\<^verbatim>\<open>xs[i]\<close> on a list: a negative index counts from the end.\<close>

definition list_index :: "'a list \<Rightarrow> int \<Rightarrow> py_error + 'a" where
  "list_index xs i =
     (if 0 \<le> i \<and> i < int (length xs) then Inr (xs ! nat i)
      else if i < 0 \<and> - int (length xs) \<le> i then Inr (xs ! nat (int (length xs) + i))
      else Inl IndexError)"

section \<open>GroupSchedulerApp: the overlap engine\<close>

text \<open>
  \<^verbatim>\<open>self.loaded_schedules\<close> is the dict \<^verbatim>\<open>{username: [(day, hour), ...]}\<close>: each
  participant's schedule is the list of cells in the order of the rows of the file.
\<close>

type_synonym registry = "(string, cell list) dict"

text \<open>\<^verbatim>\<open>overlap_counts.get(cell, 0)\<close>\<close>

definition count_at :: "(cell, int) dict \<Rightarrow> cell \<Rightarrow> int" where
  "count_at oc cell = (case dict_get oc cell of None \<Rightarrow> 0 | Some n \<Rightarrow> n)"

text \<open>\<^verbatim>\<open>overlap_counts[cell] = overlap_counts.get(cell, 0) + 1\<close>\<close>

definition bump :: "(cell, int) dict \<Rightarrow> cell \<Rightarrow> (cell, int) dict" where
  "bump oc cell = dict_set oc cell (count_at oc cell + 1)"

text \<open>The two nested loops that fill \<^verbatim>\<open>overlap_counts\<close> from the empty dict.\<close>

definition count_overlaps :: "registry \<Rightarrow> (cell, int) dict" where
  "count_overlaps reg = foldl (\<lambda>oc (username, schedule). foldl bump oc schedule) [] reg"

text \<open>
  \<^verbatim>\<open>[cell for cell, count in overlap_counts.items() if count == total]\<close>, then
  \<^verbatim>\<open>.sort()\<close>.
\<close>

definition full_overlap_slots :: "(cell, int) dict \<Rightarrow> int \<Rightarrow> cell list" where
  "full_overlap_slots oc total_n = sort (map fst (filter (\<lambda>(cell, count). count = total_n) oc))"

text \<open>
  The state of the application that the overlap tab reads and writes: the registry, the
  list box, the overlap canvas's \<^verbatim>\<open>overlap_counts\<close> and \<^verbatim>\<open>total_participants\<close>, the
  two counters of the dashboard and the rows of the tree view.
\<close>

record app =
  loaded_schedules :: registry
  loaded_listbox :: "string list"
  overlap_counts :: "(cell, int) dict"
  total_participants :: int
  lbl_part_count :: string
  lbl_match_count :: string
  tree :: "(string \<times> string) list"

definition init_app :: app where
  "init_app = \<lparr>loaded_schedules = [], loaded_listbox = [], overlap_counts = [],
     total_participants = 0, lbl_part_count = ''0'', lbl_match_count = ''0'', tree = []\<rparr>"

text \<open>
  The loop that fills the tree view: \<^verbatim>\<open>ScheduleCanvas.DAYS[day]\<close> raises
  \<^verbatim>\<open>IndexError\<close> for a day outside the list, and the rows inserted before stay.
\<close>

fun tree_rows :: "cell list \<Rightarrow> (string \<times> string) list \<Rightarrow> (string \<times> string) list \<times> py_error option" where
  "tree_rows [] acc = (acc, None)"
| "tree_rows ((day, hour) # cs) acc =
     (case list_index DAYS day of
        Inl e \<Rightarrow> (acc, Some e)
      | Inr day_name \<Rightarrow> tree_rows cs (acc @ [(day_name, fmt_02d hour @ '':00'')]))"

text \<open>
  \<^verbatim>\<open>update_overlaps\<close> returns the new state and the exception that leaves it, if any.
  With no schedule loaded it returns at once and changes nothing.
\<close>

definition update_overlaps :: "app \<Rightarrow> app \<times> py_error option" where
  "update_overlaps a =
     (if loaded_schedules a = [] then (a, None)
      else
        let oc = count_overlaps (loaded_schedules a);
            total_n = int (length (loaded_schedules a));
            full = full_overlap_slots oc total_n;
            (rows, err) = tree_rows full []
        in (a\<lparr>overlap_counts := oc, total_participants := total_n,
               lbl_part_count := str_int total_n,
               lbl_match_count := str_int (int (length full)),
               tree := rows\<rparr>, err))"

definition clear_loaded_schedules :: "app \<Rightarrow> app" where
  "clear_loaded_schedules a =
     a\<lparr>loaded_schedules := [], loaded_listbox := [], overlap_counts := [],
       total_participants := 0, lbl_part_count := ''0'', lbl_match_count := ''0'', tree := []\<rparr>"

section \<open>Files and the csv module\<close>

text \<open>
  A file system maps a file name to the text of the file. Characters are bytes; the
  encoding of the text is not modelled.
\<close>

type_synonym filesystem = "string \<rightharpoonup> string"

abbreviation LF :: char where
  "LF \<equiv> CHR 0x0A"

abbreviation CR :: char where
  "CR \<equiv> CHR 0x0D"

abbreviation TAB :: char where
  "TAB \<equiv> CHR 0x09"

abbreviation DQUOTE :: char where
  "DQUOTE \<equiv> CHR 0x22"

text \<open>
  \<^verbatim>\<open>open(filename, 'r')\<close> reads with universal newlines: \<^verbatim>\<open>\r\n\<close> and a lone
  \<^verbatim>\<open>\r\<close> both arrive as \<^verbatim>\<open>\n\<close>.
\<close>

fun universal_newlines :: "string \<Rightarrow> string" where
  "universal_newlines [] = []"
| "universal_newlines [c] = (if c = CR then [LF] else [c])"
| "universal_newlines (c # c' # cs) =
     (if c = CR then (if c' = LF then LF # universal_newlines cs
                      else LF # universal_newlines (c' # cs))
      else c # universal_newlines (c' # cs))"

subsection \<open>csv.writer\<close>

text \<open>
  \<^verbatim>\<open>csv.writer(f, delimiter=d)\<close> with the other settings of the default dialect:
  quote character \<^verbatim>\<open>"\<close>, doubled inside a quoted field, minimal quoting (a field is
  quoted when it holds the delimiter, the quote character or a character of the line
  terminator), line terminator \<^verbatim>\<open>\r\n\<close>. A row whose only field is empty is written
  as \<^verbatim>\<open>""\<close>. The file is opened with \<^verbatim>\<open>newline=''\<close>, so the text is stored as written.
\<close>

definition needs_quote :: "char \<Rightarrow> string \<Rightarrow> bool" where
  "needs_quote d f = list_ex (\<lambda>c. c = d \<or> c = DQUOTE \<or> c = CR \<or> c = LF) f"

definition double_quotes :: "string \<Rightarrow> string" where
  "double_quotes f = concat (map (\<lambda>c. if c = DQUOTE then [DQUOTE, DQUOTE] else [c]) f)"

definition write_field :: "char \<Rightarrow> string \<Rightarrow> string" where
  "write_field d f = (if needs_quote d f then DQUOTE # double_quotes f @ [DQUOTE] else f)"

fun join_fields :: "char \<Rightarrow> string list \<Rightarrow> string" where
  "join_fields d [] = []"
| "join_fields d [f] = f"
| "join_fields d (f # g # fs) = f @ d # join_fields d (g # fs)"

definition writerow :: "char \<Rightarrow> string list \<Rightarrow> string" where
  "writerow d row =
     (let rec = join_fields d (map (write_field d) row)
      in (if rec = [] \<and> row \<noteq> [] then [DQUOTE, DQUOTE] else rec) @ [CR, LF])"

subsection \<open>csv.reader\<close>

text \<open>
  The reader of the csv module is a state machine over the characters of each line,
  with the default dialect but for the delimiter: quote character \<^verbatim>\<open>"\<close>, doubled
  quotes, no escape character, not strict, initial spaces kept. The limit on the size of
  a field (\<^verbatim>\<open>csv.field_size_limit\<close>) is not modelled.
\<close>

datatype csv_state =
    START_RECORD
  | START_FIELD
  | IN_FIELD
  | IN_QUOTED_FIELD
  | QUOTE_IN_QUOTED_FIELD
  | EAT_CRNL

record parser =
  state :: csv_state
  row_fields :: "string list"
  field :: string

definition parse_reset :: parser where
  "parse_reset = \<lparr>state = START_RECORD, row_fields = [], field = []\<rparr>"

definition parse_save_field :: "parser \<Rightarrow> parser" where
  "parse_save_field p = p\<lparr>row_fields := row_fields p @ [field p], field := []\<rparr>"

definition parse_add_char :: "parser \<Rightarrow> char \<Rightarrow> parser" where
  "parse_add_char p c = p\<lparr>field := field p @ [c]\<rparr>"

text \<open>
  The step of the machine. The character \<open>None\<close> is the end-of-line mark that the
  reader feeds after the last character of every line. \<open>start_field\<close> is the case
  \<^verbatim>\<open>START_FIELD\<close>, which \<^verbatim>\<open>START_RECORD\<close> falls through to.
\<close>

definition start_field :: "char \<Rightarrow> parser \<Rightarrow> char option \<Rightarrow> py_error + parser" where
  "start_field d p c =
     (case c of
        None \<Rightarrow> Inr ((parse_save_field p)\<lparr>state := START_RECORD\<rparr>)
      | Some ch \<Rightarrow>
          if ch = LF \<or> ch = CR then Inr ((parse_save_field p)\<lparr>state := EAT_CRNL\<rparr>)
          else if ch = DQUOTE then Inr (p\<lparr>state := IN_QUOTED_FIELD\<rparr>)
          else if ch = d then Inr ((parse_save_field p)\<lparr>state := START_FIELD\<rparr>)
          else Inr ((parse_add_char p ch)\<lparr>state := IN_FIELD\<rparr>))"

definition parse_process_char :: "char \<Rightarrow> parser \<Rightarrow> char option \<Rightarrow> py_error + parser" where
  "parse_process_char d p c =
     (case state p of
        START_RECORD \<Rightarrow>
          (case c of
             None \<Rightarrow> Inr p
           | Some ch \<Rightarrow>
               if ch = LF \<or> ch = CR then Inr (p\<lparr>state := EAT_CRNL\<rparr>)
               else start_field d p c)
      | START_FIELD \<Rightarrow> start_field d p c
      | IN_FIELD \<Rightarrow>
          (case c of
             None \<Rightarrow> Inr ((parse_save_field p)\<lparr>state := START_RECORD\<rparr>)
           | Some ch \<Rightarrow>
               if ch = LF \<or> ch = CR then Inr ((parse_save_field p)\<lparr>state := EAT_CRNL\<rparr>)
               else if ch = d then Inr ((parse_save_field p)\<lparr>state := START_FIELD\<rparr>)
               else Inr (parse_add_char p ch))
      | IN_QUOTED_FIELD \<Rightarrow>
          (case c of
             None \<Rightarrow> Inr p
           | Some ch \<Rightarrow>
               if ch = DQUOTE then Inr (p\<lparr>state := QUOTE_IN_QUOTED_FIELD\<rparr>)
               else Inr (parse_add_char p ch))
      | QUOTE_IN_QUOTED_FIELD \<Rightarrow>
          (case c of
             None \<Rightarrow> Inr ((parse_save_field p)\<lparr>state := START_RECORD\<rparr>)
           | Some ch \<Rightarrow>
               if ch = DQUOTE then Inr ((parse_add_char p ch)\<lparr>state := IN_QUOTED_FIELD\<rparr>)
               else if ch = d then Inr ((parse_save_field p)\<lparr>state := START_FIELD\<rparr>)
               else if ch = LF \<or> ch = CR then Inr ((parse_save_field p)\<lparr>state := EAT_CRNL\<rparr>)
               else Inr ((parse_add_char p ch)\<lparr>state := IN_FIELD\<rparr>))
      | EAT_CRNL \<Rightarrow>
          (case c of
             None \<Rightarrow> Inr (p\<lparr>state := START_RECORD\<rparr>)
           | Some ch \<Rightarrow> if ch = LF \<or> ch = CR then Inr p else Inl CsvError))"

text \<open>
  The reader takes the text line by line (a line ends after each \<^verbatim>\<open>\n\<close>, and the last
  line ends with the text), feeds every character of the line and then the end-of-line
  mark, and yields a record whenever the machine is back in \<^verbatim>\<open>START_RECORD\<close>; inside
  a quoted field it goes on with the next line. When the text ends inside a record, the
  record read so far is yielded. \<open>recs\<close> are the records yielded so far.
\<close>

fun reader_loop :: "char \<Rightarrow> parser \<Rightarrow> string list list \<Rightarrow> string \<Rightarrow> py_error + string list list" where
  "reader_loop d p recs [] =
     (if field p \<noteq> [] \<or> state p = IN_QUOTED_FIELD
      then Inr (recs @ [row_fields (parse_save_field p)]) else Inr recs)"
| "reader_loop d p recs (c # cs) =
     (case parse_process_char d p (Some c) of
        Inl e \<Rightarrow> Inl e
      | Inr p1 \<Rightarrow>
          if c = LF \<or> cs = [] then
            (case parse_process_char d p1 None of
               Inl e \<Rightarrow> Inl e
             | Inr p2 \<Rightarrow>
                 if state p2 = START_RECORD then reader_loop d parse_reset (recs @ [row_fields p2]) cs
                 else reader_loop d p2 recs cs)
          else reader_loop d p1 recs cs)"

definition csv_reader :: "char \<Rightarrow> string \<Rightarrow> py_error + string list list" where
  "csv_reader d text = reader_loop d parse_reset [] text"

subsection \<open>csv.DictReader\<close>

text \<open>
  The first record gives the field names. Every later record that is not empty becomes
  a dict: \<^verbatim>\<open>dict(zip(fieldnames, row))\<close>, and a field name without a value gets
  \<^verbatim>\<open>None\<close>. Values beyond the field names go under the key \<^verbatim>\<open>None\<close>, which no string
  key reads, so they are left out.
\<close>

type_synonym csv_row = "(string, string option) dict"

definition make_row :: "string list \<Rightarrow> string list \<Rightarrow> csv_row" where
  "make_row fieldnames row =
     foldl (\<lambda>r key. dict_set r key None)
       (foldl (\<lambda>r (key, v). dict_set r key (Some v)) [] (zip fieldnames row))
       (drop (length row) fieldnames)"

definition dict_reader :: "char \<Rightarrow> string \<Rightarrow> py_error + csv_row list" where
  "dict_reader d text =
     (case csv_reader d text of
        Inl e \<Rightarrow> Inl e
      | Inr [] \<Rightarrow> Inr []
      | Inr (fieldnames # rows) \<Rightarrow> Inr (map (make_row fieldnames) (filter (\<lambda>r. r \<noteq> []) rows)))"

subsection \<open>\<^verbatim>\<open>int(str(i))\<close> gives \<open>i\<close> back\<close>

lemma digit_char_table:
  "\<forall>n \<in> set [0..<10].
     is_digit (digit_char n) \<and> digit_val (digit_char n) = n \<and> \<not> is_space (digit_char n)
     \<and> digit_char n \<noteq> CHR ''-'' \<and> digit_char n \<noteq> CHR ''+''"
  by code_simp

lemma digit_char_props:
  assumes "n < 10"
  shows "is_digit (digit_char n)" and "digit_val (digit_char n) = n"
    and "\<not> is_space (digit_char n)" and "digit_char n \<noteq> CHR ''-''"
    and "digit_char n \<noteq> CHR ''+''"
proof -
  have "n \<in> set [0..<10]" using assms by simp
  then have all: "is_digit (digit_char n) \<and> digit_val (digit_char n) = n \<and> \<not> is_space (digit_char n)
     \<and> digit_char n \<noteq> CHR ''-'' \<and> digit_char n \<noteq> CHR ''+''"
    using digit_char_table by blast
  show "is_digit (digit_char n)" and "digit_val (digit_char n) = n"
    and "\<not> is_space (digit_char n)" and "digit_char n \<noteq> CHR ''-''"
    and "digit_char n \<noteq> CHR ''+''"
    using all by blast+
qed

lemma str_nat_digits: "list_all is_digit (str_nat n) \<and> str_nat n \<noteq> []"
proof (induction n rule: str_nat.induct)
  case (1 n)
  show ?case
  proof (cases "n < 10")
    case True
    then show ?thesis by (simp add: str_nat.simps [of n] digit_char_props)
  next
    case False
    then have "n mod 10 < 10" by simp
    then show ?thesis using 1 False by (simp add: str_nat.simps [of n] digit_char_props)
  qed
qed

text \<open>The value of a string of digits read after the digits worth \<open>acc\<close>.\<close>

definition dec :: "nat \<Rightarrow> string \<Rightarrow> nat" where
  "dec acc xs = foldl (\<lambda>a c. 10 * a + digit_val c) acc xs"

lemma digits_val_dec: "list_all is_digit xs \<Longrightarrow> digits_val acc xs = Some (dec acc xs)"
  by (induction xs arbitrary: acc) (simp_all add: dec_def)

lemma dec_str_nat: "dec acc (str_nat n) = acc * 10 ^ length (str_nat n) + n"
proof (induction n arbitrary: acc rule: str_nat.induct)
  case (1 n)
  show ?case
  proof (cases "n < 10")
    case True
    then show ?thesis by (simp add: str_nat.simps [of n] dec_def digit_char_props)
  next
    case False
    have m: "n mod 10 < 10" by simp
    have s: "str_nat n = str_nat (n div 10) @ [digit_char (n mod 10)]"
      using False by (simp add: str_nat.simps [of n])
    have "dec acc (str_nat n) = 10 * dec acc (str_nat (n div 10)) + n mod 10"
      by (simp add: s dec_def digit_char_props(2) [OF m])
    also have "\<dots> = 10 * (acc * 10 ^ length (str_nat (n div 10)) + n div 10) + n mod 10"
      using 1 [OF False] by simp
    also have "\<dots> = acc * 10 ^ length (str_nat n) + n"
      by (simp add: s algebra_simps)
    finally show ?thesis .
  qed
qed

lemma parse_nat_str_nat: "parse_nat (str_nat n) = Some n"
proof -
  obtain c cs where s: "str_nat n = c # cs"
    using str_nat_digits [of n] by (cases "str_nat n") auto
  have d: "is_digit c" and ds: "list_all is_digit cs"
    using str_nat_digits [of n] by (simp_all add: s)
  have "parse_nat (str_nat n) = Some (dec (digit_val c) cs)"
    by (simp add: parse_nat_def s d digits_val_dec [OF ds])
  also have "dec (digit_val c) cs = dec 0 (str_nat n)" by (simp add: s dec_def)
  also have "\<dots> = n" by (simp add: dec_str_nat)
  finally show ?thesis .
qed

lemma str_nat_hd_last:
  "\<not> is_space (hd (str_nat n)) \<and> \<not> is_space (last (str_nat n))
   \<and> hd (str_nat n) \<noteq> CHR ''-'' \<and> hd (str_nat n) \<noteq> CHR ''+''
   \<and> is_digit (hd (str_nat n))"
proof (induction n rule: str_nat.induct)
  case (1 n)
  show ?case
  proof (cases "n < 10")
    case True
    then show ?thesis by (simp add: str_nat.simps [of n] digit_char_props)
  next
    case False
    have m: "n mod 10 < 10" by simp
    have ne: "str_nat (n div 10) \<noteq> []" using str_nat_digits by blast
    show ?thesis using 1 [OF False] False ne
      by (simp add: str_nat.simps [of n] digit_char_props(3) [OF m])
  qed
qed

lemma dropWhile_hd_id: "xs \<noteq> [] \<Longrightarrow> \<not> P (hd xs) \<Longrightarrow> dropWhile P xs = xs"
  by (cases xs) auto

lemma strip_id: "s \<noteq> [] \<Longrightarrow> \<not> is_space (hd s) \<Longrightarrow> \<not> is_space (last s) \<Longrightarrow> strip s = s"
proof -
  assume ne: "s \<noteq> []" and h: "\<not> is_space (hd s)" and l: "\<not> is_space (last s)"
  have 1: "dropWhile is_space s = s" using ne h by (rule dropWhile_hd_id)
  have "rev s \<noteq> []" using ne by simp
  moreover have "\<not> is_space (hd (rev s))" using ne l by (simp add: hd_rev)
  ultimately have 2: "dropWhile is_space (rev s) = rev s" by (rule dropWhile_hd_id)
  show ?thesis by (simp add: strip_def 1 2)
qed

lemma parse_int_str_int: "parse_int (str_int i) = Some i"
proof (cases "i < 0")
  case True
  let ?n = "nat (- i)"
  have ne: "str_nat ?n \<noteq> []" using str_nat_digits by blast
  have s: "str_int i = CHR ''-'' # str_nat ?n" using True by (simp add: str_int_def)
  have "strip (str_int i) = str_int i"
    using str_nat_hd_last [of ?n] ne by (intro strip_id) (simp_all add: s is_space_def)
  then show ?thesis using True by (simp add: parse_int_def s parse_nat_str_nat)
next
  case False
  let ?n = "nat i"
  obtain c cs where cs: "str_nat ?n = c # cs"
    using str_nat_digits [of ?n] by (cases "str_nat ?n") auto
  have s: "str_int i = str_nat ?n" using False by (simp add: str_int_def)
  have "strip (str_int i) = str_int i"
    using str_nat_hd_last [of ?n] by (intro strip_id) (simp_all add: s cs)
  moreover have "c \<noteq> CHR ''-''" "c \<noteq> CHR ''+''" using str_nat_hd_last [of ?n] by (simp_all add: cs)
  moreover have "parse_nat (c # cs) = Some ?n" using parse_nat_str_nat [of ?n] by (simp add: cs)
  ultimately show ?thesis using False by (simp add: parse_int_def s cs)
qed

lemma py_int_str_int: "py_int (Some (str_int i)) = Inr i"
  by (simp add: py_int_def parse_int_str_int)

lemma str_int_inj: "str_int i = str_int j \<Longrightarrow> i = j"
proof -
  assume "str_int i = str_int j"
  then have "parse_int (str_int i) = parse_int (str_int j)" by (rule arg_cong)
  then have "Some i = Some j" by (simp only: parse_int_str_int)
  then show ?thesis by (rule option.inject [THEN iffD1])
qed

lemma finite_suffixed:
  "finite {k. base @ CHR ''_'' # str_int k \<in> set ks}"
proof -
  have i: "inj (\<lambda>k. base @ CHR ''_'' # str_int k)"
  proof (rule injI)
    fix x y
    assume "base @ CHR ''_'' # str_int x = base @ CHR ''_'' # str_int y"
    then have "str_int x = str_int y" by simp
    then show "x = y" by (rule str_int_inj)
  qed
  have "finite ((\<lambda>k. base @ CHR ''_'' # str_int k) -` set ks)"
    by (rule finite_vimageI [OF finite_set i])
  then show ?thesis by (simp only: vimage_def)
qed

section \<open>GroupSchedulerApp: loading schedules\<close>

text \<open>
  The loop that makes a loaded name unique:
  \<^verbatim>\<open>while username in self.loaded_schedules: username = f"{base_username}_{counter}"; counter += 1\<close>.
  It ends because the registry is finite and the candidate names are pairwise different.
\<close>

function unique_name :: "string list \<Rightarrow> string \<Rightarrow> string \<Rightarrow> int \<Rightarrow> string" where
  "unique_name ks base_username username counter =
     (if username \<in> set ks
      then unique_name ks base_username (base_username @ CHR ''_'' # str_int counter) (counter + 1)
      else username)"
  by pat_completeness auto
termination
proof (relation "measure (\<lambda>(ks, base, username, counter).
         2 * card {k. counter \<le> k \<and> base @ CHR ''_'' # str_int k \<in> set ks}
         + (if username \<in> set ks then 1 else 0))")
  show "wf (measure (\<lambda>(ks, base, username, counter).
         2 * card {k. counter \<le> k \<and> base @ CHR ''_'' # str_int k \<in> set ks}
         + (if username \<in> set ks then 1 else 0)))" by simp
next
  fix ks :: "string list" and base username :: string and counter :: int
  assume "username \<in> set ks"
  let ?A = "\<lambda>c. {k. c \<le> k \<and> base @ CHR ''_'' # str_int k \<in> set ks}"
  have fin: "finite (?A c)" for c
    by (rule finite_subset [OF _ finite_suffixed [of base ks]]) auto
  show "((ks, base, base @ CHR ''_'' # str_int counter, counter + 1), (ks, base, username, counter))
        \<in> measure (\<lambda>(ks, base, username, counter).
         2 * card {k. counter \<le> k \<and> base @ CHR ''_'' # str_int k \<in> set ks}
         + (if username \<in> set ks then 1 else 0))"
  proof (cases "base @ CHR ''_'' # str_int counter \<in> set ks")
    case True
    have "?A counter = insert counter (?A (counter + 1))" using True by auto
    moreover have "counter \<notin> ?A (counter + 1)" by simp
    ultimately have "card (?A counter) = Suc (card (?A (counter + 1)))"
      using fin [of "counter + 1"] by simp
    then show ?thesis using True \<open>username \<in> set ks\<close> by simp
  next
    case False
    have "?A counter = ?A (counter + 1)"
    proof -
      have "k \<in> ?A counter \<longleftrightarrow> k \<in> ?A (counter + 1)" for k
        using False by (cases "k = counter") auto
      then show ?thesis by blast
    qed
    then show ?thesis using False \<open>username \<in> set ks\<close> by simp
  qed
qed

declare unique_name.simps [simp del]

text \<open>\<^verbatim>\<open>os.path.basename\<close> (POSIX): what follows the last slash.\<close>

definition basename :: "string \<Rightarrow> string" where
  "basename path = rev (takeWhile (\<lambda>c. c \<noteq> CHR ''/'') (rev path))"

definition endswith :: "string \<Rightarrow> string \<Rightarrow> bool" where
  "endswith s suffix = (length suffix \<le> length s \<and> drop (length s - length suffix) s = suffix)"

text \<open>
  The loop over the rows of one file. \<open>username\<close> is \<^verbatim>\<open>None\<close> until a row sets it:
  \<^verbatim>\<open>row.get('username', os.path.basename(filename))\<close> is the value under the key, which
  is \<^verbatim>\<open>None\<close> for a short row, or the base name when the file has no such column.
  \<^verbatim>\<open>row['day']\<close> raises \<^verbatim>\<open>KeyError\<close> without the column, and \<^verbatim>\<open>int\<close> raises on a
  value that is no integer. Every integer is accepted: there is no check of the range.
\<close>

fun read_rows :: "string \<Rightarrow> csv_row list \<Rightarrow> string option \<Rightarrow> cell list \<Rightarrow> py_error + (string option \<times> cell list)" where
  "read_rows filename [] username sched = Inr (username, sched)"
| "read_rows filename (row # rows) username sched =
     (let username' =
            (if username = None
             then (case dict_get row ''username'' of None \<Rightarrow> Some (basename filename) | Some v \<Rightarrow> v)
             else username)
      in case dict_get row ''day'' of
           None \<Rightarrow> Inl KeyError
         | Some dv \<Rightarrow>
             (case py_int dv of
                Inl e \<Rightarrow> Inl e
              | Inr day \<Rightarrow>
                  (case dict_get row ''hour'' of
                     None \<Rightarrow> Inl KeyError
                   | Some hv \<Rightarrow>
                       (case py_int hv of
                          Inl e \<Rightarrow> Inl e
                        | Inr hour \<Rightarrow> read_rows filename rows username' (sched @ [(day, hour)])))))"

text \<open>
  The body of the \<^verbatim>\<open>try\<close> up to the end of the loop over the rows: the delimiter is
  chosen by the file name, a missing file raises, and the result is the pair
  \<^verbatim>\<open>(username, schedule)\<close>.
\<close>

definition load_file :: "filesystem \<Rightarrow> string \<Rightarrow> py_error + (string option \<times> cell list)" where
  "load_file fs filename =
     (let delimiter = (if endswith filename ''.tsv'' then TAB else CHR '','')
      in case fs filename of
           None \<Rightarrow> Inl FileNotFoundError
         | Some content \<Rightarrow>
             (case dict_reader delimiter (universal_newlines content) of
                Inl e \<Rightarrow> Inl e
              | Inr rows \<Rightarrow> read_rows filename rows None []))"

text \<open>The body of \<^verbatim>\<open>if username and schedule:\<close>.\<close>

definition add_schedule :: "app \<Rightarrow> string \<Rightarrow> cell list \<Rightarrow> app" where
  "add_schedule a base_username sched =
     (let username = unique_name (dict_keys (loaded_schedules a)) base_username base_username 1
      in a\<lparr>loaded_schedules := dict_set (loaded_schedules a) username sched,
           loaded_listbox := loaded_listbox a
              @ [username @ '' ('' @ str_int (int (length sched)) @ '' slots)'']\<rparr>)"

text \<open>
  One turn of the loop over the selected files. An exception is caught and shown in an
  error box; the boxes shown so far are the second component.
\<close>

definition load_one :: "filesystem \<Rightarrow> app \<times> (string \<times> py_error) list \<Rightarrow> string \<Rightarrow> app \<times> (string \<times> py_error) list" where
  "load_one fs st filename =
     (case load_file fs filename of
        Inl e \<Rightarrow> (fst st, snd st @ [(filename, e)])
      | Inr (username, sched) \<Rightarrow>
          (case username of
             None \<Rightarrow> st
           | Some u \<Rightarrow> if u \<noteq> [] \<and> sched \<noteq> [] then (add_schedule (fst st) u sched, snd st) else st))"

text \<open>
  \<^verbatim>\<open>load_schedules\<close> with the file names that the dialog returned: the new state, the
  error boxes shown, and the exception that leaves \<^verbatim>\<open>update_overlaps\<close>, if any.
\<close>

definition load_schedules :: "app \<Rightarrow> filesystem \<Rightarrow> string list \<Rightarrow> app \<times> (string \<times> py_error) list \<times> py_error option" where
  "load_schedules a fs filenames =
     (if filenames = [] then (a, [], None)
      else
        let (a1, errs) = foldl (load_one fs) (a, []) filenames;
            (a2, ex) = update_overlaps a1
        in (a2, errs, ex))"

section \<open>GroupSchedulerApp: exporting a schedule\<close>

datatype message =
    ShowWarning string
  | ShowInfo string
  | ShowError py_error

text \<open>
  The loop that writes the rows; \<open>out\<close> is the text written so far. A day outside
  \<^verbatim>\<open>DAYS\<close> raises \<^verbatim>\<open>IndexError\<close>, and what was written stays in the file.
\<close>

fun write_schedule_rows :: "string \<Rightarrow> cell list \<Rightarrow> string \<Rightarrow> string \<times> py_error option" where
  "write_schedule_rows username [] out = (out, None)"
| "write_schedule_rows username ((day, hour) # cs) out =
     (case list_index DAYS day of
        Inl e \<Rightarrow> (out, Some e)
      | Inr day_name \<Rightarrow>
          write_schedule_rows username cs
            (out @ writerow TAB [username, str_int day, day_name, str_int hour]))"

text \<open>
  \<^verbatim>\<open>export_schedule\<close>: \<open>name_entry\<close> is the text of the name field, \<open>filename\<close> the
  answer of the save dialog (empty when cancelled). The result is the message box shown
  and the file system afterwards.
\<close>

definition export_schedule :: "string \<Rightarrow> schedule_canvas \<Rightarrow> string \<Rightarrow> filesystem \<Rightarrow> message option \<times> filesystem" where
  "export_schedule name_entry canvas filename fs =
     (let username = strip name_entry
      in if username = [] then (Some (ShowWarning ''Please enter your name first.''), fs)
         else
           let schedule_data = get_schedule_data canvas
           in if schedule_data = [] then (Some (ShowWarning ''Your schedule is empty.''), fs)
              else if filename = [] then (None, fs)
              else
                (case write_schedule_rows username schedule_data
                        (writerow TAB [''username'', ''day'', ''day_name'', ''hour'']) of
                   (out, None) \<Rightarrow>
                     (Some (ShowInfo (''Schedule exported to:'' @ [LF] @ filename)), fs(filename \<mapsto> out))
                 | (out, Some e) \<Rightarrow> (Some (ShowError e), fs(filename \<mapsto> out))))"

section \<open>Floating point\<close>

text \<open>
  A Python \<^verbatim>\<open>float\<close> is an IEEE 754 double. A finite double is a rational number, and
  every operation used here (true division of two integers, multiplication, formatting)
  returns the exact result rounded to the nearest representable value, ties to even. So a
  float is modelled by its value in \<open>rat\<close>, and \<open>to_double\<close> rounds an exact result to
  53 significant bits. Overflow and subnormal numbers are not modelled: the magnitudes
  here lie between \<open>1 / total\<close> and \<open>100 * count\<close>.
\<close>

definition round_half_even :: "rat \<Rightarrow> int" where
  "round_half_even x =
     (let f = \<lfloor>x\<rfloor>; r = x - of_int f
      in if r < 1 / 2 then f else if 1 / 2 < r then f + 1 else if even f then f else f + 1)"

text \<open>The exponent \<open>e\<close> with \<open>2 ^ e \<le> |x| < 2 ^ (e + 1)\<close>, for \<open>x\<close> other than zero.\<close>

definition binade :: "rat \<Rightarrow> int" where
  "binade x =
     (let (n, d) = quotient_of \<bar>x\<bar>; e = bitlen n - bitlen d
      in if 2 powi e \<le> \<bar>x\<bar> then e else e - 1)"

definition to_double :: "rat \<Rightarrow> rat" where
  "to_double x =
     (if x = 0 then 0
      else let u = 2 powi (binade x - 52) in of_int (round_half_even (x / u)) * u)"

text \<open>\<^verbatim>\<open>a / b\<close> on two Python integers.\<close>

definition truediv :: "int \<Rightarrow> int \<Rightarrow> py_error + rat" where
  "truediv a b = (if b = 0 then Inl ZeroDivisionError else Inr (to_double (of_int a / of_int b)))"

text \<open>\<^verbatim>\<open>x * y\<close> on two floats.\<close>

definition float_mul :: "rat \<Rightarrow> rat \<Rightarrow> rat" where
  "float_mul x y = to_double (x * y)"

text \<open>\<^verbatim>\<open>f"{x:.1f}"\<close>: one digit after the point, the exact value rounded to nearest, ties to even.\<close>

definition fmt_1f :: "rat \<Rightarrow> string" where
  "fmt_1f x =
     (let n = round_half_even (\<bar>x\<bar> * 10)
      in (if x < 0 then ''-'' else '''') @ str_int (n div 10) @ ''.'' @ str_int (n mod 10))"

section \<open>OverlapCanvas: the colour of a cell\<close>

text \<open>
  \<^verbatim>\<open>get_color_for_count(count)\<close> reads \<^verbatim>\<open>self.total_participants\<close>, the first argument
  here. The comparisons are those of the source, on the float \<open>ratio\<close>.
\<close>

definition get_color_for_count :: "int \<Rightarrow> int \<Rightarrow> py_error + string" where
  "get_color_for_count total_n count =
     (if count = 0 then Inr ''white''
      else if total_n = 0 then Inr ''white''
      else
        (case truediv count total_n of
           Inl e \<Rightarrow> Inl e
         | Inr ratio \<Rightarrow>
             Inr (if ratio = 1 then ''#1B5E20''
                  else if ratio \<ge> 3 / 4 then ''#4CAF50''
                  else if ratio \<ge> 1 / 2 then ''#8BC34A''
                  else if ratio \<ge> 1 / 4 then ''#FFEB3B''
                  else ''#FFCDD2'')))"

text \<open>
  The coverage bands of the specification are the six colours: dark green is
  \<open>FULL\<close> (everyone available), green \<open>HIGH\<close>, light green \<open>MEDIUM\<close>, yellow \<open>LOW\<close>,
  light red \<open>MINIMAL\<close> and white \<open>NONE\<close>.
\<close>

datatype coverage_band = FULL | HIGH | MEDIUM | LOW | MINIMAL | NONE

definition band_of_color :: "string \<Rightarrow> coverage_band option" where
  "band_of_color c =
     (if c = ''#1B5E20'' then Some FULL
      else if c = ''#4CAF50'' then Some HIGH
      else if c = ''#8BC34A'' then Some MEDIUM
      else if c = ''#FFEB3B'' then Some LOW
      else if c = ''#FFCDD2'' then Some MINIMAL
      else if c = ''white'' then Some NONE
      else None)"

text \<open>
  The specification's table of bands, in its order: each band includes its lower bound,
  and the first band whose threshold the ratio reaches is taken.
\<close>

definition band_of_ratio :: "rat \<Rightarrow> coverage_band" where
  "band_of_ratio ratio =
     (if ratio = 1 then FULL
      else if ratio \<ge> 3 / 4 then HIGH
      else if ratio \<ge> 1 / 2 then MEDIUM
      else if ratio \<ge> 1 / 4 then LOW
      else MINIMAL)"

text \<open>
  The specification's \<^verbatim>\<open>classifyCoverage(count, total)\<close>, in its words: \<^verbatim>\<open>NONE\<close> for
  \<^verbatim>\<open>total == 0\<close> or \<^verbatim>\<open>count == 0\<close>, else the band of the exact ratio
  \<^verbatim>\<open>count / total\<close>.
\<close>

definition classifyCoverage :: "int \<Rightarrow> int \<Rightarrow> coverage_band" where
  "classifyCoverage count total_n =
     (if total_n = 0 \<or> count = 0 then NONE
      else band_of_ratio (of_int count / of_int total_n))"

section \<open>GroupSchedulerApp: exporting the analysis\<close>

text \<open>
  One row of the analysis: \<^verbatim>\<open>count = overlap_counts.get((day, hour), 0)\<close>,
  \<^verbatim>\<open>pct = (count / total * 100) if total > 0 else 0\<close>, and the six fields as the writer
  converts them with \<^verbatim>\<open>str\<close>.
\<close>

definition analysis_row :: "(cell, int) dict \<Rightarrow> int \<Rightarrow> int \<Rightarrow> int \<Rightarrow> py_error + string list" where
  "analysis_row oc total_n day hour =
     (let count = count_at oc (day, hour)
      in case (if total_n > 0
               then (case truediv count total_n of Inl e \<Rightarrow> Inl e | Inr q \<Rightarrow> Inr (float_mul q 100))
               else Inr 0) of
           Inl e \<Rightarrow> Inl e
         | Inr pct \<Rightarrow>
             (case list_index DAYS day of
                Inl e \<Rightarrow> Inl e
              | Inr day_name \<Rightarrow>
                  Inr [str_int day, day_name, str_int hour, str_int count, str_int total_n,
                       fmt_1f pct @ ''%'']))"

text \<open>
  The cells in the order of the two nested loops, \<^verbatim>\<open>for day in range(7)\<close> and
  \<^verbatim>\<open>for hour in range(START_HOUR, END_HOUR)\<close>.
\<close>

definition grid_cells :: "cell list" where
  "grid_cells = concat (map (\<lambda>day. map (\<lambda>hour. (day, hour)) [START_HOUR .. END_HOUR - 1]) [0 .. 6])"

fun write_analysis_rows :: "(cell, int) dict \<Rightarrow> int \<Rightarrow> cell list \<Rightarrow> string \<Rightarrow> string \<times> py_error option" where
  "write_analysis_rows oc total_n [] out = (out, None)"
| "write_analysis_rows oc total_n ((day, hour) # cs) out =
     (case analysis_row oc total_n day hour of
        Inl e \<Rightarrow> (out, Some e)
      | Inr row \<Rightarrow> write_analysis_rows oc total_n cs (out @ writerow TAB row))"

text \<open>
  \<^verbatim>\<open>export_analysis\<close>: with no schedule loaded it warns and returns; \<open>filename\<close> is the
  answer of the save dialog (empty when cancelled).
\<close>

definition export_analysis :: "app \<Rightarrow> string \<Rightarrow> filesystem \<Rightarrow> message option \<times> filesystem" where
  "export_analysis a filename fs =
     (if loaded_schedules a = [] then (Some (ShowWarning ''No schedules loaded.''), fs)
      else if filename = [] then (None, fs)
      else
        let oc = count_overlaps (loaded_schedules a);
            total_n = int (length (loaded_schedules a))
        in case write_analysis_rows oc total_n grid_cells
                  (writerow TAB [''day'', ''day_name'', ''hour'', ''available_count'',
                                 ''total_participants'', ''percentage'']) of
             (out, None) \<Rightarrow>
               (Some (ShowInfo (''Analysis exported to:'' @ [LF] @ filename)), fs(filename \<mapsto> out))
           | (out, Some e) \<Rightarrow> (Some (ShowError e), fs(filename \<mapsto> out)))"

section \<open>Sessions\<close>

text \<open>
  The overlap tab changes the state through two buttons: "Load Files" calls
  \<^verbatim>\<open>load_schedules\<close> with the files chosen in the dialog, and "Clear All" calls
  \<^verbatim>\<open>clear_loaded_schedules\<close>. An exception that leaves a handler is reported by the
  event loop, and the state stays as the handler left it. A session is a list of such
  actions from the initial state.
\<close>

datatype action = Load filesystem "string list" | Clear

fun step :: "app \<Rightarrow> action \<Rightarrow> app" where
  "step a (Load fs filenames) = fst (load_schedules a fs filenames)"
| "step a Clear = clear_loaded_schedules a"

definition run :: "action list \<Rightarrow> app" where
  "run acts = foldl step init_app acts"

section \<open>Invariant of a session\<close>

text \<open>
  What holds of the state after every action: the overlap canvas shows the counts and
  the total of the registry, the registry's keys are distinct, while the registry is
  empty the dashboard is in its initial state, and otherwise its counters show the total
  and the number of full matches.
\<close>

definition app_inv :: "app \<Rightarrow> bool" where
  "app_inv a =
     (overlap_counts a = count_overlaps (loaded_schedules a)
      \<and> total_participants a = int (length (loaded_schedules a))
      \<and> distinct (dict_keys (loaded_schedules a))
      \<and> (loaded_schedules a = [] \<longrightarrow>
           tree a = [] \<and> lbl_match_count a = ''0'' \<and> lbl_part_count a = ''0'')
      \<and> (loaded_schedules a \<noteq> [] \<longrightarrow>
           lbl_part_count a = str_int (total_participants a)
           \<and> lbl_match_count a
               = str_int (int (length (full_overlap_slots (overlap_counts a) (total_participants a))))))"

text \<open>Two states show the same overlap canvas and dashboard.\<close>

definition same_display :: "app \<Rightarrow> app \<Rightarrow> bool" where
  "same_display a b =
     (overlap_counts b = overlap_counts a \<and> total_participants b = total_participants a
      \<and> tree b = tree a \<and> lbl_match_count b = lbl_match_count a
      \<and> lbl_part_count b = lbl_part_count a)"

section \<open>Example files\<close>

text \<open>
  The scenario of the specification: participant A selects (0,9), (0,10), (1,9) and
  participant B selects (0,9), (1,9), (1,10), each in a file as \<^verbatim>\<open>export_schedule\<close>
  writes it.
\<close>

definition scenario_fs :: filesystem where
  "scenario_fs =
     [''A.tsv'' \<mapsto>
        writerow TAB [''username'', ''day'', ''day_name'', ''hour'']
        @ writerow TAB [''A'', ''0'', ''Monday'', ''9'']
        @ writerow TAB [''A'', ''0'', ''Monday'', ''10'']
        @ writerow TAB [''A'', ''1'', ''Tuesday'', ''9''],
      ''B.tsv'' \<mapsto>
        writerow TAB [''username'', ''day'', ''day_name'', ''hour'']
        @ writerow TAB [''B'', ''0'', ''Monday'', ''9'']
        @ writerow TAB [''B'', ''1'', ''Tuesday'', ''9'']
        @ writerow TAB [''B'', ''1'', ''Tuesday'', ''10'']]"

text \<open>A file that lists the row (0, 9) twice, and a second participant who is free at (1, 9) only.\<close>

definition duplicate_fs :: filesystem where
  "duplicate_fs =
     [''A.tsv'' \<mapsto>
        writerow TAB [''username'', ''day'', ''day_name'', ''hour'']
        @ writerow TAB [''A'', ''0'', ''Monday'', ''9'']
        @ writerow TAB [''A'', ''0'', ''Monday'', ''9''],
      ''B.tsv'' \<mapsto>
        writerow TAB [''username'', ''day'', ''day_name'', ''hour'']
        @ writerow TAB [''B'', ''1'', ''Tuesday'', ''9'']]"

text \<open>Two files that both name the participant Alice, and a file with a header only.\<close>

definition alice_fs :: filesystem where
  "alice_fs =
     [''a.tsv'' \<mapsto>
        writerow TAB [''username'', ''day'', ''day_name'', ''hour'']
        @ writerow TAB [''Alice'', ''0'', ''Monday'', ''9''],
      ''b.tsv'' \<mapsto>
        writerow TAB [''username'', ''day'', ''day_name'', ''hour'']
        @ writerow TAB [''Alice'', ''2'', ''Wednesday'', ''14''],
      ''empty.tsv'' \<mapsto>
        writerow TAB [''username'', ''day'', ''day_name'', ''hour'']]"

section \<open>Helpers for the csv proofs\<close>

text \<open>The text of a row before the line terminator.\<close>

definition row_text :: "char \<Rightarrow> string list \<Rightarrow> string" where
  "row_text d row =
     (let rec = join_fields d (map (write_field d) row)
      in if rec = [] \<and> row \<noteq> [] then [DQUOTE, DQUOTE] else rec)"

text \<open>A character that can end a field or a line without being a lone carriage return.\<close>

definition ends_ok :: "string \<Rightarrow> bool" where
  "ends_ok s = (s = [] \<or> last s \<noteq> CR)"

text \<open>The delimiters of the two dialects: neither a quote nor a line break.\<close>

definition delimiter_ok :: "char \<Rightarrow> bool" where
  "delimiter_ok d = (d \<noteq> DQUOTE \<and> d \<noteq> CR \<and> d \<noteq> LF)"

text \<open>The rows that \<^verbatim>\<open>export_schedule\<close> writes for the cells of a schedule inside the grid.\<close>

definition schedule_rows :: "string \<Rightarrow> cell list \<Rightarrow> string list list" where
  "schedule_rows username cells =
     map (\<lambda>(day, hour). [username, str_int day, DAYS ! nat day, str_int hour]) cells"

text \<open>A file whose only data row names hour 25 on Thursday.\<close>

definition out_of_range_fs :: filesystem where
  "out_of_range_fs =
     [''late.tsv'' \<mapsto>
        writerow TAB [''username'', ''day'', ''day_name'', ''hour'']
        @ writerow TAB [''Eve'', ''3'', ''Thursday'', ''25'']]"

section \<open>Invariant of the editing canvas\<close>

text \<open>
  Every cell of the schedule and both ends of a drag in progress lie inside the grid.
\<close>

definition canvas_ok :: "schedule_canvas \<Rightarrow> bool" where
  "canvas_ok c =
     ((\<forall>cell \<in> set (dict_keys (schedule c)). in_grid cell)
      \<and> (\<forall>cell. drag_start c = Some cell \<longrightarrow> in_grid cell)
      \<and> (\<forall>cell. drag_current c = Some cell \<longrightarrow> in_grid cell))"

text \<open>The rows of a file with the two required columns only, for any integers.\<close>

definition coordinate_rows :: "cell list \<Rightarrow> string list list" where
  "coordinate_rows cells = map (\<lambda>(day, hour). [str_int day, str_int hour]) cells"

text \<open>
  The percentage field and the rows that \<^verbatim>\<open>export_analysis\<close> writes for a positive
  total, in the order of \<open>grid_cells\<close>.
\<close>

definition percentage :: "int \<Rightarrow> int \<Rightarrow> string" where
  "percentage count total_n = fmt_1f (float_mul (to_double (of_int count / of_int total_n)) 100) @ ''%''"

definition analysis_rows :: "(cell, int) dict \<Rightarrow> int \<Rightarrow> string list list" where
  "analysis_rows oc total_n =
     map (\<lambda>(day, hour).
            [str_int day, DAYS ! nat day, str_int hour, str_int (count_at oc (day, hour)),
             str_int total_n, percentage (count_at oc (day, hour)) total_n])
         grid_cells"

definition analysis_header :: "string list" where
  "analysis_header = [''day'', ''day_name'', ''hour'', ''available_count'', ''total_participants'',
     ''percentage'']"

text \<open>A file whose only data row names day 7, one past Sunday.\<close>

definition eighth_day_fs :: filesystem where
  "eighth_day_fs =
     [''week.tsv'' \<mapsto>
        writerow TAB [''username'', ''day'', ''day_name'', ''hour'']
        @ writerow TAB [''Eve'', ''7'', ''Monday'', ''9'']]"

section \<open>Facts about dicts\<close>

lemma dict_get_None_iff: "dict_get d k = None \<longleftrightarrow> k \<notin> set (dict_keys d)"
  by (induction d k rule: dict_get.induct) (auto simp: dict_keys_def)

lemma dict_get_set: "dict_get (dict_set d k v) k' = (if k' = k then Some v else dict_get d k')"
  by (induction d k v rule: dict_set.induct) auto

lemma dict_get_pop:
  "distinct (dict_keys d) \<Longrightarrow> dict_get (dict_pop d k) k' = (if k' = k then None else dict_get d k')"
proof (induction d k rule: dict_pop.induct)
  case (1 k)
  then show ?case by simp
next
  case (2 a b d k)
  have notin: "a \<notin> set (dict_keys d)" and dist: "distinct (dict_keys d)"
    using "2.prems" by (simp_all add: dict_keys_def)
  have none: "dict_get d a = None" using notin by (simp add: dict_get_None_iff)
  show ?case using "2.IH" dist none by auto
qed

lemma set_keys_dict_set: "set (dict_keys (dict_set d k v)) = insert k (set (dict_keys d))"
  by (induction d k v rule: dict_set.induct) (auto simp: dict_keys_def)

lemma set_keys_dict_pop:
  "distinct (dict_keys d) \<Longrightarrow> set (dict_keys (dict_pop d k)) = set (dict_keys d) - {k}"
  by (induction d k rule: dict_pop.induct) (auto simp: dict_keys_def)

lemma distinct_dict_set: "distinct (dict_keys d) \<Longrightarrow> distinct (dict_keys (dict_set d k v))"
proof (induction d k v rule: dict_set.induct)
  case (1 k v)
  then show ?case by (simp add: dict_keys_def)
next
  case (2 a b d k v)
  have "set (dict_keys (dict_set d k v)) = insert k (set (dict_keys d))"
    by (rule set_keys_dict_set)
  then show ?case using 2 by (auto simp: dict_keys_def)
qed

lemma distinct_dict_pop: "distinct (dict_keys d) \<Longrightarrow> distinct (dict_keys (dict_pop d k))"
proof (induction d k rule: dict_pop.induct)
  case (1 k)
  then show ?case by (simp add: dict_keys_def)
next
  case (2 a b d k)
  have "distinct (dict_keys d)" using "2.prems" by (simp add: dict_keys_def)
  then have "set (dict_keys (dict_pop d k)) = set (dict_keys d) - {k}"
    by (rule set_keys_dict_pop)
  then show ?case using 2 by (auto simp: dict_keys_def)
qed

lemma list_all_snd_dict_set: "list_all snd d \<Longrightarrow> list_all snd (dict_set d k True)"
  by (induction d k True rule: dict_set.induct) auto

lemma list_all_snd_dict_pop: "list_all snd d \<Longrightarrow> list_all snd (dict_pop d k)"
  by (induction d k rule: dict_pop.induct) auto

lemma schedule_ok_set: "schedule_ok d \<Longrightarrow> schedule_ok (dict_set d k True)"
  by (simp add: schedule_ok_def distinct_dict_set list_all_snd_dict_set)

lemma schedule_ok_pop: "schedule_ok d \<Longrightarrow> schedule_ok (dict_pop d k)"
  by (simp add: schedule_ok_def distinct_dict_pop list_all_snd_dict_pop)

lemma dict_get_Some_True:
  "list_all snd d \<Longrightarrow> k \<in> set (dict_keys d) \<Longrightarrow> dict_get d k = Some True"
  by (induction d k rule: dict_get.induct) (auto simp: dict_keys_def)

lemma is_selected_iff: "list_all snd d \<Longrightarrow> is_selected d k \<longleftrightarrow> k \<in> set (dict_keys d)"
proof (cases "k \<in> set (dict_keys d)")
  case True
  assume "list_all snd d"
  then show ?thesis using True by (simp add: is_selected_def dict_get_Some_True)
next
  case False
  then have "dict_get d k = None" by (simp add: dict_get_None_iff)
  then show ?thesis using False by (simp add: is_selected_def)
qed

section \<open>ScheduleCanvas: toggling a cell\<close>

lemma get_cell_at_in_grid: "get_cell_at x y = Some cell \<Longrightarrow> in_grid cell"
  by (auto simp: get_cell_at_def in_grid_def Let_def split: if_splits)

lemma get_cell_at_onto:
  assumes "in_grid (d, h)"
  shows "get_cell_at (time_width + d * cell_width) (header_height + (h - START_HOUR) * cell_height) = Some (d, h)"
  using assms
  by (simp add: get_cell_at_def in_grid_def Let_def time_width_def cell_width_def
      header_height_def cell_height_def START_HOUR_def END_HOUR_def)

lemma click_eq:
  assumes "editable c" and "get_cell_at x y = Some cell"
  shows "click c x y = c\<lparr>schedule :=
           (if is_selected (schedule c) cell then dict_pop (schedule c) cell
            else dict_set (schedule c) cell True),
           drag_start := None, drag_current := None, drag_mode := None\<rparr>"
  using assms
  by (cases cell) (simp add: click_def on_mouse_down_def on_mouse_up_def apply_drag_def)

lemma sort_distinct_set_eq:
  fixes xs ys :: "('a::linorder) list"
  assumes "distinct xs" "distinct ys" "set xs = set ys"
  shows "sort xs = sort ys"
proof -
  have "sort xs = sorted_list_of_set (set xs)"
    using assms(1) by (simp add: sorted_list_of_set_sort_remdups distinct_remdups_id)
  moreover have "sort ys = sorted_list_of_set (set ys)"
    using assms(2) by (simp add: sorted_list_of_set_sort_remdups distinct_remdups_id)
  ultimately show ?thesis using assms(3) by simp
qed

text \<open>
  C8: for every availability set and every valid grid coordinate, a click on the cell
  toggles it (removes it if present, inserts it if absent, leaves every other cell alone),
  and a second click on the same cell gives back the original set: the two dicts are equal
  as Python dicts and export the same sorted list. Every pixel that \<open>get_cell_at\<close> maps
  to a cell maps to a valid one, and every valid cell has such a pixel (\<open>get_cell_at_onto\<close>).
\<close>

theorem double_toggle_identity:
  assumes ed: "editable c" and ok: "schedule_ok (schedule c)"
    and at: "get_cell_at x y = Some cell"
  shows "in_grid cell
       \<and> (dict_contains (schedule (click c x y)) cell \<longleftrightarrow> \<not> dict_contains (schedule c) cell)
       \<and> (\<forall>k. k \<noteq> cell \<longrightarrow> dict_get (schedule (click c x y)) k = dict_get (schedule c) k)
       \<and> dict_get (schedule (click (click c x y) x y)) = dict_get (schedule c)
       \<and> get_schedule_data (click (click c x y) x y) = get_schedule_data c"
proof -
  let ?s = "schedule c"
  let ?c1 = "click c x y"
  let ?s1 = "schedule ?c1"
  let ?s2 = "schedule (click ?c1 x y)"
  have dist: "distinct (dict_keys ?s)" and allT: "list_all snd ?s"
    using ok by (simp_all add: schedule_ok_def)
  have sel: "is_selected ?s cell \<longleftrightarrow> cell \<in> set (dict_keys ?s)"
    by (rule is_selected_iff [OF allT])
  have s1: "?s1 = (if cell \<in> set (dict_keys ?s) then dict_pop ?s cell else dict_set ?s cell True)"
    by (simp add: click_eq [OF ed at] sel)
  have ed1: "editable ?c1" by (simp add: click_eq [OF ed at] ed)
  have ok1: "schedule_ok ?s1" by (simp add: s1 schedule_ok_pop schedule_ok_set ok)
  have dist1: "distinct (dict_keys ?s1)" and allT1: "list_all snd ?s1"
    using ok1 by (simp_all add: schedule_ok_def)
  have keys1: "set (dict_keys ?s1) =
      (if cell \<in> set (dict_keys ?s) then set (dict_keys ?s) - {cell} else insert cell (set (dict_keys ?s)))"
    by (simp add: s1 set_keys_dict_pop [OF dist] set_keys_dict_set)
  have sel1: "is_selected ?s1 cell \<longleftrightarrow> cell \<in> set (dict_keys ?s1)"
    by (rule is_selected_iff [OF allT1])
  have s2: "?s2 = (if cell \<in> set (dict_keys ?s1) then dict_pop ?s1 cell else dict_set ?s1 cell True)"
    by (simp add: click_eq [OF ed1 at] sel1)
  have ok2: "schedule_ok ?s2" by (simp add: s2 schedule_ok_pop schedule_ok_set ok1)
  have get1: "dict_get ?s1 k = (if k = cell then (if cell \<in> set (dict_keys ?s) then None else Some True)
                                else dict_get ?s k)" for k
    by (simp add: s1 dict_get_pop [OF dist] dict_get_set)
  have get2: "dict_get ?s2 k = dict_get ?s k" for k
  proof (cases "cell \<in> set (dict_keys ?s)")
    case True
    then have "cell \<notin> set (dict_keys ?s1)" by (simp add: keys1)
    then have "?s2 = dict_set ?s1 cell True" by (simp add: s2)
    then have "dict_get ?s2 k = (if k = cell then Some True else dict_get ?s1 k)"
      by (simp add: dict_get_set)
    then show ?thesis using True by (simp add: get1 dict_get_Some_True [OF allT])
  next
    case False
    then have "cell \<in> set (dict_keys ?s1)" by (simp add: keys1)
    then have "?s2 = dict_pop ?s1 cell" by (simp add: s2)
    then have "dict_get ?s2 k = (if k = cell then None else dict_get ?s1 k)"
      by (simp add: dict_get_pop [OF dist1])
    moreover have "dict_get ?s cell = None" using False by (simp add: dict_get_None_iff)
    ultimately show ?thesis by (simp add: get1)
  qed
  have keys2: "set (dict_keys ?s2) = set (dict_keys ?s)"
  proof -
    have "k \<in> set (dict_keys ?s2) \<longleftrightarrow> k \<in> set (dict_keys ?s)" for k
      using get2 [of k] dict_get_None_iff [of ?s2 k] dict_get_None_iff [of ?s k] by simp
    then show ?thesis by blast
  qed
  have dist2: "distinct (dict_keys ?s2)" using ok2 by (simp add: schedule_ok_def)
  have p1: "in_grid cell" by (rule get_cell_at_in_grid [OF at])
  have p2: "dict_contains ?s1 cell \<longleftrightarrow> \<not> dict_contains ?s cell"
    by (simp add: dict_contains_def keys1)
  have p3: "\<forall>k. k \<noteq> cell \<longrightarrow> dict_get ?s1 k = dict_get ?s k"
    by (simp add: get1)
  have p4: "dict_get ?s2 = dict_get ?s" using get2 by blast
  have p5: "get_schedule_data (click ?c1 x y) = get_schedule_data c"
    unfolding get_schedule_data_def by (rule sort_distinct_set_eq [OF dist2 dist keys2])
  show ?thesis using p1 p2 p3 p4 p5 by blast
qed


theorem double_toggle_identity_witness:
  "editable (new_canvas True) \<and> schedule_ok (schedule (new_canvas True))
   \<and> get_cell_at 170 80 = Some (1, 10) \<and> in_grid (1, 10)
   \<and> schedule (click (new_canvas True) 170 80) = [((1, 10), True)]
   \<and> dict_contains (schedule (click (new_canvas True) 170 80)) (1, 10)
   \<and> \<not> dict_contains (schedule (new_canvas True)) (1, 10)
   \<and> dict_get (schedule (click (click (new_canvas True) 170 80) 170 80)) = dict_get (schedule (new_canvas True))
   \<and> get_schedule_data (click (click (new_canvas True) 170 80) 170 80) = get_schedule_data (new_canvas True)"
proof -
  have e: "editable (new_canvas True)" by (simp add: new_canvas_def)
  have ok: "schedule_ok (schedule (new_canvas True))"
    by (simp add: new_canvas_def schedule_ok_def dict_keys_def)
  have at: "get_cell_at 170 80 = Some (1, 10)"
    by (simp add: get_cell_at_def time_width_def header_height_def cell_width_def
        cell_height_def START_HOUR_def END_HOUR_def DAYS_def)
  have s: "schedule (click (new_canvas True) 170 80) = [((1, 10), True)]"
    by (subst click_eq [OF e at]) (simp add: new_canvas_def is_selected_def)
  have n: "\<not> dict_contains (schedule (new_canvas True)) (1, 10)"
    by (simp add: dict_contains_def dict_keys_def new_canvas_def)
  show ?thesis
    using double_toggle_identity [OF e ok at] e ok at s n by simp
qed

section \<open>The overlap engine\<close>

lemma count_at_bump: "count_at (bump oc c) k = count_at oc k + (if k = c then 1 else 0)"
  by (simp add: count_at_def bump_def dict_get_set)

lemma count_at_foldl_bump: "count_at (foldl bump oc s) k = count_at oc k + int (count_list s k)"
  by (induction s arbitrary: oc) (simp_all add: count_at_bump)

lemma count_at_foldl_registry:
  "count_at (foldl (\<lambda>oc (username, sched). foldl bump oc sched) oc reg) k
   = count_at oc k + (\<Sum>(username, sched) \<leftarrow> reg. int (count_list sched k))"
  by (induction reg arbitrary: oc) (auto simp: count_at_foldl_bump)

lemma count_at_count_overlaps:
  "count_at (count_overlaps reg) k = (\<Sum>(username, sched) \<leftarrow> reg. int (count_list sched k))"
proof -
  have "count_at [] k = 0" by (simp add: count_at_def)
  then show ?thesis unfolding count_overlaps_def count_at_foldl_registry by simp
qed

lemma distinct_bump: "distinct (dict_keys oc) \<Longrightarrow> distinct (dict_keys (bump oc c))"
  by (simp add: bump_def distinct_dict_set)

lemma distinct_foldl_bump: "distinct (dict_keys oc) \<Longrightarrow> distinct (dict_keys (foldl bump oc s))"
  by (induction s arbitrary: oc) (simp_all add: distinct_bump)

lemma distinct_foldl_registry:
  "distinct (dict_keys oc) \<Longrightarrow>
   distinct (dict_keys (foldl (\<lambda>oc (username, sched). foldl bump oc sched) oc reg))"
  by (induction reg arbitrary: oc) (auto simp: distinct_foldl_bump)

lemma distinct_count_overlaps: "distinct (dict_keys (count_overlaps reg))"
proof -
  have "distinct (dict_keys ([] :: (cell, int) dict))" by (simp add: dict_keys_def)
  then show ?thesis unfolding count_overlaps_def by (rule distinct_foldl_registry)
qed

lemma dict_get_Some_iff:
  "distinct (dict_keys d) \<Longrightarrow> dict_get d k = Some v \<longleftrightarrow> (k, v) \<in> set d"
proof (induction d k rule: dict_get.induct)
  case (1 k)
  then show ?case by simp
next
  case (2 k' v' d k)
  have notin: "k' \<notin> fst ` set d" and dist: "distinct (dict_keys d)"
    using "2.prems" by (simp_all add: dict_keys_def)
  show ?case
  proof (cases "k' = k")
    case True
    have "(k, v) \<notin> set d" using notin True by force
    then show ?thesis using True by auto
  next
    case False
    then show ?thesis using "2.IH" dist by auto
  qed
qed

lemma set_full_overlap_slots:
  assumes "distinct (dict_keys oc)" and "n \<noteq> 0"
  shows "set (full_overlap_slots oc n) = {cell. count_at oc cell = n}"
proof -
  have "cell \<in> set (full_overlap_slots oc n) \<longleftrightarrow> count_at oc cell = n" for cell
  proof -
    have "cell \<in> set (full_overlap_slots oc n) \<longleftrightarrow> (cell, n) \<in> set oc"
      by (force simp: full_overlap_slots_def)
    also have "\<dots> \<longleftrightarrow> dict_get oc cell = Some n"
      by (simp add: dict_get_Some_iff [OF assms(1)])
    also have "\<dots> \<longleftrightarrow> count_at oc cell = n"
      using assms(2) by (auto simp: count_at_def split: option.splits)
    finally show ?thesis .
  qed
  then show ?thesis by blast
qed

lemma distinct_full_overlap_slots:
  "distinct (dict_keys oc) \<Longrightarrow> distinct (full_overlap_slots oc n)"
  by (simp add: full_overlap_slots_def dict_keys_def distinct_map_filter)

lemma sorted_full_overlap_slots: "sorted (full_overlap_slots oc n)"
  by (simp add: full_overlap_slots_def)

lemma full_overlap_slots_zero_tally:
  "n \<noteq> 0 \<Longrightarrow> \<forall>cell. count_at oc cell = 0 \<Longrightarrow> distinct (dict_keys oc) \<Longrightarrow> full_overlap_slots oc n = []"
proof -
  assume "n \<noteq> 0" and z: "\<forall>cell. count_at oc cell = 0" and "distinct (dict_keys oc)"
  then have "set (full_overlap_slots oc n) = {cell. count_at oc cell = n}"
    by (intro set_full_overlap_slots)
  also have "\<dots> = {}" using z \<open>n \<noteq> 0\<close> by auto
  finally show ?thesis by simp
qed

section \<open>Unique names\<close>

lemma unique_name_notin: "unique_name ks b u c \<notin> set ks"
proof (induction ks b u c rule: unique_name.induct)
  case (1 ks b u c)
  then show ?case by (simp add: unique_name.simps [of ks b u c])
qed

lemma unique_name_first_unused:
  "(u \<notin> set ks \<and> unique_name ks b u c = u)
   \<or> (u \<in> set ks \<and> (\<exists>k\<ge>c. unique_name ks b u c = b @ CHR ''_'' # str_int k
          \<and> (\<forall>j. c \<le> j \<and> j < k \<longrightarrow> b @ CHR ''_'' # str_int j \<in> set ks)))"
proof (induction ks b u c rule: unique_name.induct)
  case (1 ks b u c)
  let ?u' = "b @ CHR ''_'' # str_int c"
  show ?case
  proof (cases "u \<in> set ks")
    case False
    then show ?thesis by (simp add: unique_name.simps [of ks b u c])
  next
    case True
    have eq: "unique_name ks b u c = unique_name ks b ?u' (c + 1)"
      using True by (simp add: unique_name.simps [of ks b u c])
    from "1.IH" [OF True] show ?thesis
    proof (elim disjE conjE exE)
      assume "?u' \<notin> set ks" and "unique_name ks b ?u' (c + 1) = ?u'"
      then have "unique_name ks b u c = b @ CHR ''_'' # str_int c \<and>
                 (\<forall>j. c \<le> j \<and> j < c \<longrightarrow> b @ CHR ''_'' # str_int j \<in> set ks)"
        by (auto simp: eq)
      then show ?thesis using True by (intro disjI2 conjI exI [of _ c]) simp_all
    next
      fix k
      assume in': "?u' \<in> set ks" and k: "c + 1 \<le> k"
        and r: "unique_name ks b ?u' (c + 1) = b @ CHR ''_'' # str_int k"
        and a: "\<forall>j. c + 1 \<le> j \<and> j < k \<longrightarrow> b @ CHR ''_'' # str_int j \<in> set ks"
      have "\<forall>j. c \<le> j \<and> j < k \<longrightarrow> b @ CHR ''_'' # str_int j \<in> set ks"
      proof (intro allI impI)
        fix j assume j: "c \<le> j \<and> j < k"
        show "b @ CHR ''_'' # str_int j \<in> set ks"
        proof (cases "j = c")
          case True
          then show ?thesis using in' by simp
        next
          case False
          then have "c + 1 \<le> j \<and> j < k" using j by simp
          then show ?thesis using a by blast
        qed
      qed
      moreover have "c \<le> k" using k by simp
      ultimately show ?thesis using True r eq by (intro disjI2 conjI exI [of _ k]) simp_all
    qed
  qed
qed

lemma dict_set_fresh: "k \<notin> set (dict_keys d) \<Longrightarrow> dict_set d k v = d @ [(k, v)]"
  by (induction d k v rule: dict_set.induct) (auto simp: dict_keys_def)

lemma add_schedule_registry:
  "loaded_schedules (add_schedule a u s)
   = loaded_schedules a @ [(unique_name (dict_keys (loaded_schedules a)) u u 1, s)]"
  by (simp add: add_schedule_def Let_def dict_set_fresh unique_name_notin)

lemma add_schedule_other_fields:
  "overlap_counts (add_schedule a u s) = overlap_counts a"
  "total_participants (add_schedule a u s) = total_participants a"
  "tree (add_schedule a u s) = tree a"
  "lbl_match_count (add_schedule a u s) = lbl_match_count a"
  "lbl_part_count (add_schedule a u s) = lbl_part_count a"
  by (simp_all add: add_schedule_def Let_def)

lemma load_one_cases:
  "load_one fs st fn = st
   \<or> (\<exists>e. load_file fs fn = Inl e \<and> load_one fs st fn = (fst st, snd st @ [(fn, e)]))
   \<or> (\<exists>u s. load_file fs fn = Inr (Some u, s) \<and> u \<noteq> [] \<and> s \<noteq> []
          \<and> load_one fs st fn = (add_schedule (fst st) u s, snd st))"
  by (cases st) (auto simp: load_one_def split: sum.splits option.splits prod.splits)

section \<open>The invariant of a session\<close>

lemma app_inv_init: "app_inv init_app"
  by (simp add: app_inv_def init_app_def count_overlaps_def dict_keys_def)

lemma app_inv_clear: "app_inv (clear_loaded_schedules a)"
  by (simp add: app_inv_def clear_loaded_schedules_def count_overlaps_def dict_keys_def)

lemma load_one_grows:
  assumes "distinct (dict_keys (loaded_schedules (fst st)))"
  shows "distinct (dict_keys (loaded_schedules (fst (load_one fs st fn))))
       \<and> same_display (fst st) (fst (load_one fs st fn))
       \<and> (\<exists>new. loaded_schedules (fst (load_one fs st fn)) = loaded_schedules (fst st) @ new)"
  using load_one_cases [of fs st fn]
proof (elim disjE exE conjE)
  assume "load_one fs st fn = st"
  then show ?thesis using assms by (simp add: same_display_def)
next
  fix e assume "load_one fs st fn = (fst st, snd st @ [(fn, e)])"
  then show ?thesis using assms by (simp add: same_display_def)
next
  fix u s assume eq: "load_one fs st fn = (add_schedule (fst st) u s, snd st)"
  let ?ks = "dict_keys (loaded_schedules (fst st))"
  have "unique_name ?ks u u 1 \<notin> set ?ks" by (rule unique_name_notin)
  then have "distinct (dict_keys (loaded_schedules (add_schedule (fst st) u s)))"
    using assms by (simp add: add_schedule_registry dict_keys_def)
  then show ?thesis
    by (simp add: eq same_display_def add_schedule_other_fields add_schedule_registry)
qed

lemma load_loop_grows:
  assumes "distinct (dict_keys (loaded_schedules (fst st)))"
  shows "distinct (dict_keys (loaded_schedules (fst (foldl (load_one fs) st fns))))
       \<and> same_display (fst st) (fst (foldl (load_one fs) st fns))
       \<and> (\<exists>new. loaded_schedules (fst (foldl (load_one fs) st fns)) = loaded_schedules (fst st) @ new)"
  using assms
proof (induction fns arbitrary: st)
  case Nil
  then show ?case by (simp add: same_display_def)
next
  case (Cons fn fns)
  let ?st1 = "load_one fs st fn"
  have 1: "distinct (dict_keys (loaded_schedules (fst ?st1)))"
    and 2: "same_display (fst st) (fst ?st1)"
    and 3: "\<exists>new. loaded_schedules (fst ?st1) = loaded_schedules (fst st) @ new"
    using load_one_grows [OF Cons.prems] by blast+
  from Cons.IH [OF 1] 2 3 show ?case
    by (auto simp: same_display_def)
qed

lemma update_overlaps_fields:
  assumes "loaded_schedules a \<noteq> []"
  shows "loaded_schedules (fst (update_overlaps a)) = loaded_schedules a"
    and "overlap_counts (fst (update_overlaps a)) = count_overlaps (loaded_schedules a)"
    and "total_participants (fst (update_overlaps a)) = int (length (loaded_schedules a))"
    and "lbl_part_count (fst (update_overlaps a)) = str_int (int (length (loaded_schedules a)))"
    and "lbl_match_count (fst (update_overlaps a))
         = str_int (int (length (full_overlap_slots (count_overlaps (loaded_schedules a))
                                   (int (length (loaded_schedules a))))))"
  using assms by (simp_all add: update_overlaps_def Let_def split: prod.splits)

lemma update_overlaps_empty: "loaded_schedules a = [] \<Longrightarrow> update_overlaps a = (a, None)"
  by (simp add: update_overlaps_def)

lemma app_inv_load: 
  assumes "app_inv a"
  shows "app_inv (fst (load_schedules a fs fns))"
proof (cases "fns = []")
  case True
  then show ?thesis using assms by (simp add: load_schedules_def)
next
  case False
  let ?a1 = "fst (foldl (load_one fs) (a, []) fns)"
  have d: "distinct (dict_keys (loaded_schedules (fst (a, [] :: (string \<times> py_error) list))))"
    using assms by (simp add: app_inv_def)
  have 1: "distinct (dict_keys (loaded_schedules ?a1))"
    and 2: "same_display a ?a1"
    and 3: "\<exists>new. loaded_schedules ?a1 = loaded_schedules a @ new"
    using load_loop_grows [OF d, of fs fns] by simp_all
  have res: "fst (load_schedules a fs fns) = fst (update_overlaps ?a1)"
    using False by (simp add: load_schedules_def split: prod.splits)
  show ?thesis
  proof (cases "loaded_schedules ?a1 = []")
    case True
    then have "loaded_schedules a = []" using 3 by auto
    then show ?thesis using assms 2 True
      by (simp add: res update_overlaps_empty app_inv_def same_display_def)
  next
    case False
    then show ?thesis using 1
      by (simp add: res app_inv_def update_overlaps_fields)
  qed
qed

lemma app_inv_step: "app_inv a \<Longrightarrow> app_inv (step a act)"
  by (cases act) (simp_all add: app_inv_load app_inv_clear)

lemma app_inv_foldl: "app_inv a \<Longrightarrow> app_inv (foldl step a acts)"
  by (induction acts arbitrary: a) (simp_all add: app_inv_step)

lemma app_inv_run: "app_inv (run acts)"
  by (simp add: run_def app_inv_foldl app_inv_init)

section \<open>The overlap tally and the full matches of a session\<close>

lemma scenario_run:
  "run [Load scenario_fs [''A.tsv'', ''B.tsv'']] =
     \<lparr>loaded_schedules = [(''A'', [(0, 9), (0, 10), (1, 9)]), (''B'', [(0, 9), (1, 9), (1, 10)])],
      loaded_listbox = [''A (3 slots)'', ''B (3 slots)''],
      overlap_counts = [((0, 9), 2), ((0, 10), 1), ((1, 9), 2), ((1, 10), 1)],
      total_participants = 2, lbl_part_count = ''2'', lbl_match_count = ''2'',
      tree = [(''Monday'', ''09:00''), (''Tuesday'', ''09:00'')]\<rparr>"
  by code_simp

lemma scenario_cleared: "run [Load scenario_fs [''A.tsv'', ''B.tsv''], Clear] = init_app"
proof -
  have "run [Load scenario_fs [''A.tsv'', ''B.tsv''], Clear]
        = clear_loaded_schedules (run [Load scenario_fs [''A.tsv'', ''B.tsv'']])"
    by (simp add: run_def)
  then show ?thesis by (simp add: scenario_run clear_loaded_schedules_def init_app_def)
qed

text \<open>
  C1: the tally that \<^verbatim>\<open>update_overlaps\<close> computes from a registry has, at every
  coordinate, one count for each occurrence of the coordinate in each participant's
  schedule, and the total is the number of participants. After every sequence of loads
  and clears the overlap canvas holds exactly this tally and total of the registry; for
  the empty registry the tally is empty and the total is 0.
\<close>

theorem computeTally_counts_and_total:
  "count_at (count_overlaps reg) cell = (\<Sum>(username, sched) \<leftarrow> reg. int (count_list sched cell))
   \<and> count_overlaps [] = []
   \<and> overlap_counts (run acts) = count_overlaps (loaded_schedules (run acts))
   \<and> total_participants (run acts) = int (length (loaded_schedules (run acts)))
   \<and> (loaded_schedules (run acts) = [] \<longrightarrow>
        overlap_counts (run acts) = [] \<and> total_participants (run acts) = 0)"
proof -
  have inv: "app_inv (run acts)" by (rule app_inv_run)
  have e: "count_overlaps [] = []" by (simp add: count_overlaps_def)
  show ?thesis using inv e by (simp add: app_inv_def count_at_count_overlaps)
qed

theorem computeTally_counts_and_total_witness:
  "loaded_schedules (run [Load scenario_fs [''A.tsv'', ''B.tsv''], Clear]) = []
   \<and> overlap_counts (run [Load scenario_fs [''A.tsv'', ''B.tsv''], Clear]) = []
   \<and> total_participants (run [Load scenario_fs [''A.tsv'', ''B.tsv''], Clear]) = 0
   \<and> count_at (count_overlaps [(''A'', [(0, 9), (0, 10), (1, 9)]), (''B'', [(0, 9), (1, 9), (1, 10)])]) (0, 9) = 2"
proof -
  have h: "loaded_schedules (run [Load scenario_fs [''A.tsv'', ''B.tsv''], Clear]) = []"
    by (simp add: scenario_cleared init_app_def)
  show ?thesis
    using computeTally_counts_and_total
      [of "[(''A'', [(0, 9), (0, 10), (1, 9)]), (''B'', [(0, 9), (1, 9), (1, 10)])]" "(0, 9)"
          "[Load scenario_fs [''A.tsv'', ''B.tsv''], Clear]"] h
    by simp
qed

lemma strictly_ascending:
  fixes xs :: "cell list"
  assumes "sorted xs" and "distinct xs"
  shows "sorted_wrt (\<lambda>(d1, h1) (d2, h2). d1 < d2 \<or> (d1 = d2 \<and> h1 < h2)) xs"
proof -
  have "sorted_wrt (<) xs" using assms by (simp add: strict_sorted_iff)
  moreover have "x < y \<Longrightarrow> (case x of (d1, h1) \<Rightarrow> \<lambda>(d2, h2). d1 < d2 \<or> (d1 = d2 \<and> h1 < h2)) y"
    for x y :: cell
    by (cases x; cases y) (auto simp: less_prod_def)
  ultimately show ?thesis by (rule sorted_wrt_mono_rel [rotated]) blast
qed

text \<open>
  C3: the list of full matches that \<^verbatim>\<open>update_overlaps\<close> computes holds exactly the
  coordinates whose count equals the total (which is positive when anything is loaded),
  strictly ascending by (day, hour), and the dashboard shows its length. With an empty
  registry the total is 0, the list is empty and the dashboard shows no match; a tally
  whose counts are all zero gives the empty list. The computation of the list is total;
  only the loop that fills the tree view afterwards can raise, for a full match whose day
  is no index of \<^verbatim>\<open>DAYS\<close>, and then the list and the label are already in place.
\<close>

theorem findFullMatches_exact_sorted:
  "(loaded_schedules (run acts) \<noteq> [] \<longrightarrow>
      0 < total_participants (run acts)
      \<and> set (full_overlap_slots (overlap_counts (run acts)) (total_participants (run acts)))
          = {cell. count_at (overlap_counts (run acts)) cell = total_participants (run acts)}
      \<and> lbl_match_count (run acts)
          = str_int (int (length (full_overlap_slots (overlap_counts (run acts))
                                    (total_participants (run acts))))))
   \<and> sorted_wrt (\<lambda>(d1, h1) (d2, h2). d1 < d2 \<or> (d1 = d2 \<and> h1 < h2))
        (full_overlap_slots (overlap_counts (run acts)) (total_participants (run acts)))
   \<and> (loaded_schedules (run acts) = [] \<longrightarrow>
        total_participants (run acts) = 0
        \<and> full_overlap_slots (overlap_counts (run acts)) (total_participants (run acts)) = []
        \<and> tree (run acts) = [] \<and> lbl_match_count (run acts) = ''0'')
   \<and> (distinct (dict_keys oc) \<and> n \<noteq> 0 \<and> (\<forall>cell. count_at oc cell = 0) \<longrightarrow>
        full_overlap_slots oc n = [])"
proof -
  let ?a = "run acts"
  let ?oc = "overlap_counts ?a"
  let ?t = "total_participants ?a"
  have inv: "app_inv ?a" by (rule app_inv_run)
  have oc: "?oc = count_overlaps (loaded_schedules ?a)"
    and t: "?t = int (length (loaded_schedules ?a))"
    using inv by (simp_all add: app_inv_def)
  have d: "distinct (dict_keys ?oc)" by (simp add: oc distinct_count_overlaps)
  have 1: "loaded_schedules ?a \<noteq> [] \<longrightarrow>
      0 < ?t \<and> set (full_overlap_slots ?oc ?t) = {cell. count_at ?oc cell = ?t}
      \<and> lbl_match_count ?a = str_int (int (length (full_overlap_slots ?oc ?t)))"
  proof
    assume ne: "loaded_schedules ?a \<noteq> []"
    then have pos: "0 < ?t" by (simp add: t)
    then have "?t \<noteq> 0" by simp
    then have s: "set (full_overlap_slots ?oc ?t) = {cell. count_at ?oc cell = ?t}"
      by (rule set_full_overlap_slots [OF d])
    have l: "lbl_match_count ?a = str_int (int (length (full_overlap_slots ?oc ?t)))"
      using inv ne by (simp add: app_inv_def)
    show "0 < ?t \<and> set (full_overlap_slots ?oc ?t) = {cell. count_at ?oc cell = ?t}
      \<and> lbl_match_count ?a = str_int (int (length (full_overlap_slots ?oc ?t)))"
      using pos s l by blast
  qed
  have 2: "sorted_wrt (\<lambda>(d1, h1) (d2, h2). d1 < d2 \<or> (d1 = d2 \<and> h1 < h2)) (full_overlap_slots ?oc ?t)"
    by (rule strictly_ascending [OF sorted_full_overlap_slots distinct_full_overlap_slots [OF d]])
  have 3: "loaded_schedules ?a = [] \<longrightarrow>
        ?t = 0 \<and> full_overlap_slots ?oc ?t = [] \<and> tree ?a = [] \<and> lbl_match_count ?a = ''0''"
    using inv by (auto simp: app_inv_def count_overlaps_def full_overlap_slots_def)
  have 4: "distinct (dict_keys oc) \<and> n \<noteq> 0 \<and> (\<forall>cell. count_at oc cell = 0) \<longrightarrow>
        full_overlap_slots oc n = []"
    using full_overlap_slots_zero_tally [of n oc] by blast
  show ?thesis using 1 2 3 4 by blast
qed

theorem findFullMatches_exact_sorted_witness:
  "loaded_schedules (run [Load scenario_fs [''A.tsv'', ''B.tsv'']]) \<noteq> []
   \<and> total_participants (run [Load scenario_fs [''A.tsv'', ''B.tsv'']]) = 2
   \<and> full_overlap_slots (overlap_counts (run [Load scenario_fs [''A.tsv'', ''B.tsv'']])) 2
       = [(0, 9), (1, 9)]
   \<and> {(0, 9), (1, 9)} = {cell. count_at (overlap_counts (run [Load scenario_fs [''A.tsv'', ''B.tsv'']])) cell = 2}
   \<and> lbl_match_count (run [Load scenario_fs [''A.tsv'', ''B.tsv'']]) = ''2''
   \<and> loaded_schedules (run [Load scenario_fs [''A.tsv'', ''B.tsv''], Clear]) = []
   \<and> full_overlap_slots (overlap_counts (run [Load scenario_fs [''A.tsv'', ''B.tsv''], Clear])) 0 = []
   \<and> tree (run [Load scenario_fs [''A.tsv'', ''B.tsv''], Clear]) = []
   \<and> lbl_match_count (run [Load scenario_fs [''A.tsv'', ''B.tsv''], Clear]) = ''0''
   \<and> full_overlap_slots [((0, 9), 0), ((1, 9), 0)] 1 = []"
proof -
  let ?S = "[Load scenario_fs [''A.tsv'', ''B.tsv'']]"
  let ?C = "[Load scenario_fs [''A.tsv'', ''B.tsv''], Clear]"
  have ne: "loaded_schedules (run ?S) \<noteq> []" by (simp add: scenario_run)
  have t: "total_participants (run ?S) = 2" by (simp add: scenario_run)
  have f: "full_overlap_slots (overlap_counts (run ?S)) 2 = [(0, 9), (1, 9)]"
    unfolding scenario_run by code_simp
  have e: "loaded_schedules (run ?C) = []" by (simp add: scenario_cleared init_app_def)
  have z: "distinct (dict_keys [((0 :: int, 9 :: int), 0 :: int), ((1, 9), 0)])
           \<and> (\<forall>cell. count_at [((0, 9), 0), ((1, 9), 0)] cell = 0)"
    by (simp add: dict_keys_def count_at_def)
  have s2: "str_int 2 = ''2''" by code_simp
  note S = findFullMatches_exact_sorted [of ?S "[((0, 9), 0), ((1, 9), 0)]" 1]
  note C = findFullMatches_exact_sorted [of ?C "[]" 1]
  have 1: "{(0, 9), (1, 9)} = {cell. count_at (overlap_counts (run ?S)) cell = 2}"
    and 2: "lbl_match_count (run ?S) = ''2''"
    and 3: "full_overlap_slots [((0, 9), 0), ((1, 9), 0)] 1 = []"
    using S ne t f z s2 by simp_all
  have t0: "total_participants (run ?C) = 0" using C e by blast
  have 4: "full_overlap_slots (overlap_counts (run ?C)) 0 = []"
    and 5: "tree (run ?C) = []" and 6: "lbl_match_count (run ?C) = ''0''"
    using C e t0 by simp_all
  show ?thesis using ne t f e 1 2 3 4 5 6 by blast
qed

text \<open>
  C10 fails on the code: \<^verbatim>\<open>load_schedules\<close> keeps each row of a file, so a file that
  lists the row (0, 9) twice gives its participant two entries for the cell, and the
  tally counts both. With that file alone the count at (0, 9) is 2 for 1 participant;
  with a second participant who is free at (1, 9) only, the count at (0, 9) equals the
  total of 2, and the dashboard lists Monday 09:00 as a perfect match.
\<close>

theorem duplicate_rows_counted_twice:
  "loaded_schedules (run [Load duplicate_fs [''A.tsv'']]) = [(''A'', [(0, 9), (0, 9)])]
   \<and> count_at (overlap_counts (run [Load duplicate_fs [''A.tsv'']])) (0, 9) = 2
   \<and> total_participants (run [Load duplicate_fs [''A.tsv'']]) = 1
   \<and> loaded_schedules (run [Load duplicate_fs [''A.tsv'', ''B.tsv'']])
       = [(''A'', [(0, 9), (0, 9)]), (''B'', [(1, 9)])]
   \<and> count_at (overlap_counts (run [Load duplicate_fs [''A.tsv'', ''B.tsv'']])) (0, 9) = 2
   \<and> total_participants (run [Load duplicate_fs [''A.tsv'', ''B.tsv'']]) = 2
   \<and> lbl_match_count (run [Load duplicate_fs [''A.tsv'', ''B.tsv'']]) = ''1''
   \<and> tree (run [Load duplicate_fs [''A.tsv'', ''B.tsv'']]) = [(''Monday'', ''09:00'')]"
  by code_simp

section \<open>Names in the registry\<close>

lemma alice_run:
  "run [Load alice_fs [''a.tsv'', ''b.tsv'']] =
     \<lparr>loaded_schedules = [(''Alice'', [(0, 9)]), (''Alice_1'', [(2, 14)])],
      loaded_listbox = [''Alice (1 slots)'', ''Alice_1 (1 slots)''],
      overlap_counts = [((0, 9), 1), ((2, 14), 1)],
      total_participants = 2, lbl_part_count = ''2'', lbl_match_count = ''0'',
      tree = []\<rparr>"
  by code_simp

lemma alice_first:
  "run [Load alice_fs [''a.tsv'']] =
     \<lparr>loaded_schedules = [(''Alice'', [(0, 9)])],
      loaded_listbox = [''Alice (1 slots)''],
      overlap_counts = [((0, 9), 1)],
      total_participants = 1, lbl_part_count = ''1'', lbl_match_count = ''1'',
      tree = [(''Monday'', ''09:00'')]\<rparr>"
  by code_simp

lemma alice_second_file: "load_file alice_fs ''b.tsv'' = Inr (Some ''Alice'', [(2, 14)])"
  by code_simp

lemma load_one_registry:
  "\<exists>new. loaded_schedules (fst (load_one fs st fn)) = loaded_schedules (fst st) @ new"
  using load_one_cases [of fs st fn] by (auto simp: add_schedule_registry)

lemma load_one_adds:
  assumes "load_file fs fn = Inr (Some u, s)" and "u \<noteq> []" and "s \<noteq> []"
  shows "loaded_schedules (fst (load_one fs st fn))
         = loaded_schedules (fst st) @ [(unique_name (dict_keys (loaded_schedules (fst st))) u u 1, s)]"
  using assms by (simp add: load_one_def add_schedule_registry)

text \<open>
  C5: after every sequence of imports the keys of the registry are distinct. One file
  never changes an entry that is there: the registry afterwards is the registry before
  with new entries appended, and a loaded schedule is appended under a name that is not
  a key yet: the participant's name \<open>u\<close> itself when it is unused, else \<open>u_k\<close> for the
  least \<open>k \<ge> 1\<close> such that \<open>u_k\<close> is unused. Loading two files that both name Alice gives
  the keys Alice, Alice_1 in this order.
\<close>

theorem registry_keys_unique:
  "distinct (dict_keys (loaded_schedules (run acts)))
   \<and> (\<exists>new. loaded_schedules (fst (load_one fs st fn)) = loaded_schedules (fst st) @ new)
   \<and> (load_file fs fn = Inr (Some u, s) \<and> u \<noteq> [] \<and> s \<noteq> [] \<longrightarrow>
        loaded_schedules (fst (load_one fs st fn))
        = loaded_schedules (fst st) @ [(unique_name (dict_keys (loaded_schedules (fst st))) u u 1, s)])
   \<and> unique_name ks u u 1 \<notin> set ks
   \<and> (u \<notin> set ks \<longrightarrow> unique_name ks u u 1 = u)
   \<and> (u \<in> set ks \<longrightarrow>
        (\<exists>k\<ge>1. unique_name ks u u 1 = u @ ''_'' @ str_int k
               \<and> (\<forall>j. 1 \<le> j \<and> j < k \<longrightarrow> u @ ''_'' @ str_int j \<in> set ks)))
   \<and> dict_keys (loaded_schedules (run [Load alice_fs [''a.tsv'', ''b.tsv'']])) = [''Alice'', ''Alice_1'']"
proof -
  have 1: "distinct (dict_keys (loaded_schedules (run acts)))"
    using app_inv_run [of acts] by (simp add: app_inv_def)
  have 2: "\<exists>new. loaded_schedules (fst (load_one fs st fn)) = loaded_schedules (fst st) @ new"
    by (rule load_one_registry)
  have 3: "load_file fs fn = Inr (Some u, s) \<and> u \<noteq> [] \<and> s \<noteq> [] \<longrightarrow>
        loaded_schedules (fst (load_one fs st fn))
        = loaded_schedules (fst st) @ [(unique_name (dict_keys (loaded_schedules (fst st))) u u 1, s)]"
    using load_one_adds by blast
  have 4: "unique_name ks u u 1 \<notin> set ks" by (rule unique_name_notin)
  have 5: "u \<notin> set ks \<longrightarrow> unique_name ks u u 1 = u"
    by (simp add: unique_name.simps [of ks u u 1])
  have 6: "u \<in> set ks \<longrightarrow>
        (\<exists>k\<ge>1. unique_name ks u u 1 = u @ ''_'' @ str_int k
               \<and> (\<forall>j. 1 \<le> j \<and> j < k \<longrightarrow> u @ ''_'' @ str_int j \<in> set ks))"
    using unique_name_first_unused [of u ks u 1] by auto
  have 7: "dict_keys (loaded_schedules (run [Load alice_fs [''a.tsv'', ''b.tsv'']])) = [''Alice'', ''Alice_1'']"
    by (simp add: alice_run dict_keys_def)
  show ?thesis using 1 2 3 4 5 6 7 by blast
qed

theorem registry_keys_unique_witness:
  "load_file alice_fs ''b.tsv'' = Inr (Some ''Alice'', [(2, 14)])
   \<and> loaded_schedules (fst (load_one alice_fs (run [Load alice_fs [''a.tsv'']], []) ''b.tsv''))
       = [(''Alice'', [(0, 9)]), (''Alice_1'', [(2, 14)])]
   \<and> ''Alice'' \<in> set [''Alice'']
   \<and> unique_name [''Alice''] ''Alice'' ''Alice'' 1 = ''Alice_1''
   \<and> ''Bob'' \<notin> set [''Alice'']
   \<and> unique_name [''Alice''] ''Bob'' ''Bob'' 1 = ''Bob''
   \<and> distinct (dict_keys (loaded_schedules (run [Load alice_fs [''a.tsv'', ''b.tsv'']])))"
proof -
  let ?st = "(run [Load alice_fs [''a.tsv'']], [] :: (string \<times> py_error) list)"
  have u1: "unique_name [''Alice''] ''Alice'' ''Alice'' 1 = ''Alice_1''" by code_simp
  have ks: "dict_keys (loaded_schedules (fst ?st)) = [''Alice'']"
    by (simp add: alice_first dict_keys_def)
  note A = registry_keys_unique [of "[Load alice_fs [''a.tsv'', ''b.tsv'']]" alice_fs ?st
      "''b.tsv''" "''Alice''" "[(2, 14)]" "[''Alice'']"]
  note B = registry_keys_unique [of "[]" alice_fs ?st "''b.tsv''" "''Bob''" "[]" "[''Alice'']"]
  have 1: "loaded_schedules (fst (load_one alice_fs ?st ''b.tsv''))
       = [(''Alice'', [(0, 9)]), (''Alice_1'', [(2, 14)])]"
    using A alice_second_file ks u1 by (simp add: alice_first)
  have 2: "unique_name [''Alice''] ''Bob'' ''Bob'' 1 = ''Bob''" using B by simp
  have 3: "distinct (dict_keys (loaded_schedules (run [Load alice_fs [''a.tsv'', ''b.tsv'']])))"
    using A by blast
  show ?thesis using alice_second_file 1 u1 2 3 by simp
qed

section \<open>A file without data rows\<close>




section \<open>Rounding to a double\<close>

lemma round_half_even_int: "round_half_even (of_int n) = n"
  by (simp add: round_half_even_def)

lemma round_half_even_range: "\<lfloor>x\<rfloor> \<le> round_half_even x \<and> round_half_even x \<le> \<lfloor>x\<rfloor> + 1"
  by (simp add: round_half_even_def Let_def)

lemma round_half_even_mono:
  assumes "x \<le> y"
  shows "round_half_even x \<le> round_half_even y"
proof (cases "\<lfloor>x\<rfloor> = \<lfloor>y\<rfloor>")
  case True
  have "x - of_int \<lfloor>x\<rfloor> \<le> y - of_int \<lfloor>y\<rfloor>" using assms True by simp
  then show ?thesis using True by (auto simp: round_half_even_def Let_def)
next
  case False
  have "\<lfloor>x\<rfloor> \<le> \<lfloor>y\<rfloor>" using assms by (rule floor_mono)
  then have "\<lfloor>x\<rfloor> + 1 \<le> \<lfloor>y\<rfloor>" using False by simp
  then show ?thesis
    using round_half_even_range [of x] round_half_even_range [of y] by linarith
qed

lemma two_powi_pos: "0 < (2::rat) powi e"
  by (simp add: zero_less_power_int)

lemma two_powi_add: "(2::rat) powi a * 2 powi b = 2 powi (a + b)"
  by (simp add: power_int_add)

lemma two_powi_numeral: "(of_int (2 ^ n) :: rat) = 2 powi int n"
  by (simp add: power_int_def)

lemma two_powi_of_bitlen:
  assumes "0 < n"
  shows "(2::rat) powi (bitlen n - 1) \<le> of_int n" and "of_int n < (2::rat) powi bitlen n"
proof -
  have b: "2 ^ nat (bitlen n - 1) \<le> n" and c: "n < 2 ^ nat (bitlen n)"
    using bitlen_bounds [OF assms] by simp_all
  have pos: "0 < bitlen n" using assms bitlen_ge_iff_power [of 1 n] by simp
  have "(2::rat) powi (bitlen n - 1) = 2 ^ nat (bitlen n - 1)"
    using pos by (simp add: power_int_def)
  also have "\<dots> = of_int (2 ^ nat (bitlen n - 1))" by simp
  also have "\<dots> \<le> of_int n" using b by (simp only: of_int_le_iff)
  finally show "(2::rat) powi (bitlen n - 1) \<le> of_int n" .
  have "of_int n < (of_int (2 ^ nat (bitlen n)) :: rat)" using c by (simp only: of_int_less_iff)
  also have "\<dots> = 2 ^ nat (bitlen n)" by simp
  also have "\<dots> = (2::rat) powi bitlen n" using pos by (simp add: power_int_def)
  finally show "of_int n < (2::rat) powi bitlen n" .
qed

lemma binade_bounds:
  assumes "x \<noteq> 0"
  shows "2 powi (binade x) \<le> \<bar>x\<bar> \<and> \<bar>x\<bar> < 2 powi (binade x + 1)"
proof -
  obtain n d where q: "quotient_of \<bar>x\<bar> = (n, d)" by (cases "quotient_of \<bar>x\<bar>")
  have d: "0 < d" using q by (rule quotient_of_denom_pos)
  have ax: "\<bar>x\<bar> = of_int n / of_int d" using q by (rule quotient_of_div)
  have apos: "0 < \<bar>x\<bar>" using assms by simp
  have n: "0 < n"
  proof (rule ccontr)
    assume "\<not> 0 < n"
    then have "of_int n / (of_int d :: rat) \<le> 0" using d by (simp add: divide_le_0_iff)
    then show False using apos ax by simp
  qed
  let ?e = "bitlen n - bitlen d"
  have up: "\<bar>x\<bar> < 2 powi (?e + 1)"
  proof -
    have "of_int n / (of_int d :: rat) < 2 powi bitlen n / 2 powi (bitlen d - 1)"
      using two_powi_of_bitlen [OF n] two_powi_of_bitlen [OF d] n two_powi_pos
      by (intro frac_less) simp_all
    also have "\<dots> = 2 powi (bitlen n - (bitlen d - 1))" by (simp add: power_int_diff)
    finally show ?thesis by (simp add: ax algebra_simps)
  qed
  have lo: "2 powi (?e - 1) \<le> \<bar>x\<bar>"
  proof -
    have "(2::rat) powi (bitlen n - 1) / 2 powi bitlen d \<le> of_int n / of_int d"
      using two_powi_of_bitlen [OF n] two_powi_of_bitlen [OF d] d n two_powi_pos [of "bitlen d"]
      by (intro frac_le) simp_all
    moreover have "(2::rat) powi (bitlen n - 1) / 2 powi bitlen d = 2 powi (bitlen n - 1 - bitlen d)"
      by (simp add: power_int_diff)
    ultimately show ?thesis by (simp add: ax algebra_simps)
  qed
  show ?thesis
  proof (cases "2 powi ?e \<le> \<bar>x\<bar>")
    case True
    then have "binade x = ?e" by (simp add: binade_def q)
    then show ?thesis using True up by simp
  next
    case False
    then have "binade x = ?e - 1" by (simp add: binade_def q)
    then show ?thesis using False lo by simp
  qed
qed

lemma binade_mono:
  assumes "0 < x" and "x \<le> y"
  shows "binade x \<le> binade y"
proof (rule ccontr)
  assume "\<not> binade x \<le> binade y"
  then have "binade y + 1 \<le> binade x" by simp
  then have "(2::rat) powi (binade y + 1) \<le> 2 powi binade x"
    by (intro power_int_increasing) simp_all
  also have "\<dots> \<le> \<bar>x\<bar>" using binade_bounds [of x] assms by simp
  also have "\<dots> \<le> \<bar>y\<bar>" using assms by simp
  also have "\<dots> < 2 powi (binade y + 1)" using binade_bounds [of y] assms by simp
  finally show False by simp
qed

lemma to_double_mono:
  assumes "0 < x" and "x \<le> y"
  shows "to_double x \<le> to_double y"
proof -
  have y: "0 < y" using assms by simp
  let ?ux = "(2::rat) powi (binade x - 52)"
  let ?uy = "(2::rat) powi (binade y - 52)"
  have tx: "to_double x = of_int (round_half_even (x / ?ux)) * ?ux"
    using assms by (simp add: to_double_def Let_def)
  have ty: "to_double y = of_int (round_half_even (y / ?uy)) * ?uy"
    using y by (simp add: to_double_def Let_def)
  have ux: "0 < ?ux" and uy: "0 < ?uy" by (rule two_powi_pos)+
  show ?thesis
  proof (cases "binade x = binade y")
    case True
    have "x / ?ux \<le> y / ?ux" using assms ux by (simp add: divide_right_mono)
    then have "round_half_even (x / ?ux) \<le> round_half_even (y / ?ux)"
      by (rule round_half_even_mono)
    then have "(of_int (round_half_even (x / ?ux)) :: rat) \<le> of_int (round_half_even (y / ?ux))"
      by (simp only: of_int_le_iff)
    then show ?thesis using ux by (simp add: tx ty True mult_right_mono)
  next
    case False
    then have lt: "binade x + 1 \<le> binade y" using binade_mono [OF assms] by simp
    have "x < 2 powi (binade x + 1)" using binade_bounds [of x] assms by simp
    then have "x / ?ux < 2 powi (binade x + 1) / ?ux" using ux by (simp add: divide_strict_right_mono)
    also have "\<dots> = 2 powi 53" by (simp add: power_int_diff [symmetric])
    finally have "x / ?ux \<le> of_int (2 ^ 53)" by (simp add: power_int_def)
    then have "round_half_even (x / ?ux) \<le> round_half_even (of_int (2 ^ 53))"
      by (rule round_half_even_mono)
    then have "round_half_even (x / ?ux) \<le> 2 ^ 53" by (simp only: round_half_even_int)
    then have "(of_int (round_half_even (x / ?ux)) :: rat) \<le> of_int (2 ^ 53)"
      by (simp only: of_int_le_iff)
    then have "to_double x \<le> of_int (2 ^ 53) * ?ux"
      using ux by (simp only: tx mult_right_mono less_imp_le)
    also have "\<dots> = 2 powi int 53 * ?ux" by (simp only: two_powi_numeral)
    also have "\<dots> = 2 powi (int 53 + (binade x - 52))" by (rule two_powi_add)
    also have "\<dots> = 2 powi (binade x + 1)"
      by (rule arg_cong [where f = "\<lambda>e. 2 powi e"]) simp
    also have "\<dots> \<le> 2 powi binade y" using lt by (intro power_int_increasing) simp_all
    finally have a: "to_double x \<le> 2 powi binade y" .
    have "2 powi binade y \<le> y" using binade_bounds [of y] y by simp
    then have "2 powi binade y / ?uy \<le> y / ?uy" using uy by (simp add: divide_right_mono)
    moreover have "2 powi binade y / ?uy = 2 powi 52" by (simp add: power_int_diff [symmetric])
    ultimately have "of_int (2 ^ 52) \<le> y / ?uy" by (simp add: power_int_def)
    then have "round_half_even (of_int (2 ^ 52)) \<le> round_half_even (y / ?uy)"
      by (rule round_half_even_mono)
    then have "2 ^ 52 \<le> round_half_even (y / ?uy)" by (simp only: round_half_even_int)
    then have "(of_int (2 ^ 52) :: rat) \<le> of_int (round_half_even (y / ?uy))"
      by (simp only: of_int_le_iff)
    then have "of_int (2 ^ 52) * ?uy \<le> to_double y"
      using uy by (simp only: ty mult_right_mono less_imp_le)
    moreover have "of_int (2 ^ 52) * ?uy = 2 powi int 52 * ?uy" by (simp only: two_powi_numeral)
    moreover have "2 powi int 52 * ?uy = 2 powi (int 52 + (binade y - 52))" by (rule two_powi_add)
    moreover have "(2::rat) powi (int 52 + (binade y - 52)) = 2 powi binade y"
      by (rule arg_cong [where f = "\<lambda>e. 2 powi e"]) simp
    ultimately have b: "2 powi binade y \<le> to_double y" by simp
    show ?thesis using a b by simp
  qed
qed

lemma to_double_fixed:
  "to_double 1 = 1" "to_double (3 / 4) = 3 / 4" "to_double (1 / 2) = 1 / 2" "to_double (1 / 4) = 1 / 4"
  "to_double (1 - 1 / 2 ^ 53) = 1 - 1 / 2 ^ 53"
  "to_double (1 + 1 / 2 ^ 52) = 1 + 1 / 2 ^ 52"
  "to_double (3 / 4 - 1 / 2 ^ 53) = 3 / 4 - 1 / 2 ^ 53"
  "to_double (1 / 2 - 1 / 2 ^ 53) = 1 / 2 - 1 / 2 ^ 53"
  "to_double (1 / 4 - 1 / 2 ^ 53) = 1 / 4 - 1 / 2 ^ 53"
  by code_simp+

section \<open>The bands of the coverage ratio\<close>

lemma ratio_below:
  fixes c t k :: int
  assumes "0 < t" and "t \<le> 2 ^ 51" and "4 * c + 1 \<le> k * t" and "0 < c"
  shows "to_double (of_int c / of_int t) \<le> to_double (of_int k / 4 - 1 / 2 ^ 53)"
    and "of_int c / (of_int t :: rat) \<le> of_int k / 4 - 1 / 2 ^ 53"
proof -
  have tr: "(0::rat) < of_int t" "(of_int t :: rat) \<le> 2 ^ 51"
    using assms(1,2) by (simp_all add: of_int_le_iff [of t "2 ^ 51", where ?'a = rat, simplified])
  have "(of_int (4 * c + 1) :: rat) \<le> of_int (k * t)" using assms(3) by (simp only: of_int_le_iff)
  then have kr: "4 * (of_int c :: rat) + 1 \<le> of_int k * of_int t" by simp
  have "(of_int c :: rat) \<le> (of_int k / 4 - 1 / 2 ^ 53) * of_int t"
    using kr tr by (simp add: algebra_simps)
  then show le: "of_int c / (of_int t :: rat) \<le> of_int k / 4 - 1 / 2 ^ 53"
    using tr(1) by (simp add: pos_divide_le_eq)
  have "(0::rat) < of_int c / of_int t" using assms(1,4) by simp
  then show "to_double (of_int c / of_int t) \<le> to_double (of_int k / 4 - 1 / 2 ^ 53)"
    using le by (rule to_double_mono)
qed

lemma ratio_bands:
  fixes c t :: int
  assumes c: "0 < c" and t: "0 < t" and b: "t \<le> 2 ^ 51"
  shows "to_double (of_int c / of_int t) = 1 \<longleftrightarrow> c = t"
    and "3 / 4 \<le> to_double (of_int c / of_int t) \<longleftrightarrow> 3 * t \<le> 4 * c"
    and "1 / 2 \<le> to_double (of_int c / of_int t) \<longleftrightarrow> t \<le> 2 * c"
    and "1 / 4 \<le> to_double (of_int c / of_int t) \<longleftrightarrow> t \<le> 4 * c"
proof -
  let ?q = "(of_int c / of_int t :: rat)"
  have tr: "(0::rat) < of_int t" using t by simp
  have qpos: "0 < ?q" using c t by simp
  have above: "to_double (of_int k / 4) \<le> to_double ?q" if "k * t \<le> 4 * c" "0 < k" for k :: int
  proof -
    have "(of_int (k * t) :: rat) \<le> of_int (4 * c)" using that(1) by (simp only: of_int_le_iff)
    then have "(of_int k :: rat) * of_int t \<le> 4 * of_int c" by simp
    then have "(of_int k :: rat) / 4 \<le> ?q" using tr by (simp add: pos_le_divide_eq)
    moreover have "(0::rat) < of_int k / 4" using that(2) by simp
    ultimately show ?thesis by (intro to_double_mono)
  qed
  show "3 / 4 \<le> to_double ?q \<longleftrightarrow> 3 * t \<le> 4 * c"
  proof
    assume "3 * t \<le> 4 * c"
    from above [OF this] have "to_double (3 / 4) \<le> to_double ?q" by simp
    then show "3 / 4 \<le> to_double ?q" by (simp only: to_double_fixed)
  next
    assume h: "3 / 4 \<le> to_double ?q"
    show "3 * t \<le> 4 * c"
    proof (rule ccontr)
      assume "\<not> 3 * t \<le> 4 * c"
      then have "4 * c + 1 \<le> 3 * t" by simp
      from ratio_below(2) [OF t b this c] have "?q \<le> 3 / 4 - 1 / 2 ^ 53" by simp
      with qpos have "to_double ?q \<le> to_double (3 / 4 - 1 / 2 ^ 53)" by (rule to_double_mono)
      then have "to_double ?q \<le> 3 / 4 - 1 / 2 ^ 53" by (simp only: to_double_fixed)
      then show False using h by simp
    qed
  qed
  show "1 / 2 \<le> to_double ?q \<longleftrightarrow> t \<le> 2 * c"
  proof
    assume "t \<le> 2 * c"
    then have "2 * t \<le> 4 * c" by simp
    from above [OF this] have "to_double (1 / 2) \<le> to_double ?q" by simp
    then show "1 / 2 \<le> to_double ?q" by (simp only: to_double_fixed)
  next
    assume h: "1 / 2 \<le> to_double ?q"
    show "t \<le> 2 * c"
    proof (rule ccontr)
      assume "\<not> t \<le> 2 * c"
      then have "4 * c + 1 \<le> 2 * t" by simp
      from ratio_below(2) [OF t b this c] have "?q \<le> 1 / 2 - 1 / 2 ^ 53" by simp
      with qpos have "to_double ?q \<le> to_double (1 / 2 - 1 / 2 ^ 53)" by (rule to_double_mono)
      then have "to_double ?q \<le> 1 / 2 - 1 / 2 ^ 53" by (simp only: to_double_fixed)
      then show False using h by simp
    qed
  qed
  show "1 / 4 \<le> to_double ?q \<longleftrightarrow> t \<le> 4 * c"
  proof
    assume "t \<le> 4 * c"
    then have "1 * t \<le> 4 * c" by simp
    from above [OF this] have "to_double (1 / 4) \<le> to_double ?q" by simp
    then show "1 / 4 \<le> to_double ?q" by (simp only: to_double_fixed)
  next
    assume h: "1 / 4 \<le> to_double ?q"
    show "t \<le> 4 * c"
    proof (rule ccontr)
      assume "\<not> t \<le> 4 * c"
      then have "4 * c + 1 \<le> 1 * t" by simp
      from ratio_below(2) [OF t b this c] have "?q \<le> 1 / 4 - 1 / 2 ^ 53" by simp
      with qpos have "to_double ?q \<le> to_double (1 / 4 - 1 / 2 ^ 53)" by (rule to_double_mono)
      then have "to_double ?q \<le> 1 / 4 - 1 / 2 ^ 53" by (simp only: to_double_fixed)
      then show False using h by simp
    qed
  qed
  show "to_double ?q = 1 \<longleftrightarrow> c = t"
  proof
    assume "c = t"
    then have "?q = 1" using t by simp
    then show "to_double ?q = 1" by (simp add: to_double_fixed)
  next
    assume h: "to_double ?q = 1"
    show "c = t"
    proof (rule ccontr)
      assume ne: "c \<noteq> t"
      show False
      proof (cases "c < t")
        case True
        then have "4 * c + 1 \<le> 4 * t" by simp
        from ratio_below(2) [OF t b this c] have "?q \<le> 1 - 1 / 2 ^ 53" by simp
        with qpos have "to_double ?q \<le> to_double (1 - 1 / 2 ^ 53)" by (rule to_double_mono)
        then have "to_double ?q \<le> 1 - 1 / 2 ^ 53" by (simp only: to_double_fixed)
        then show False using h by simp
      next
        case False
        then have "t + 1 \<le> c" using ne by simp
        then have "(of_int (t + 1) :: rat) \<le> of_int c" by (simp only: of_int_le_iff)
        moreover have "(of_int t :: rat) \<le> 2 ^ 51"
          using b by (simp add: of_int_le_iff [of t "2 ^ 51", where ?'a = rat, simplified])
        ultimately have "(1 + 1 / 2 ^ 52) * (of_int t :: rat) \<le> of_int c"
          by (simp add: algebra_simps)
        then have "1 + 1 / 2 ^ 52 \<le> ?q" using tr by (simp add: pos_le_divide_eq)
        then have "to_double (1 + 1 / 2 ^ 52) \<le> to_double ?q"
          by (intro to_double_mono) simp_all
        then have "1 + 1 / 2 ^ 52 \<le> to_double ?q" by (simp only: to_double_fixed)
        then show False using h by simp
      qed
    qed
  qed
qed

lemma exact_ratio_bands:
  fixes c t :: int
  assumes "0 < t"
  shows "(of_int c / of_int t :: rat) = 1 \<longleftrightarrow> c = t"
    and "3 / 4 \<le> (of_int c / of_int t :: rat) \<longleftrightarrow> 3 * t \<le> 4 * c"
    and "1 / 2 \<le> (of_int c / of_int t :: rat) \<longleftrightarrow> t \<le> 2 * c"
    and "1 / 4 \<le> (of_int c / of_int t :: rat) \<longleftrightarrow> t \<le> 4 * c"
proof -
  have tr: "(0::rat) < of_int t" using assms by simp
  show "(of_int c / of_int t :: rat) = 1 \<longleftrightarrow> c = t" using assms by auto
  have "3 / 4 \<le> (of_int c / of_int t :: rat) \<longleftrightarrow> (of_int (3 * t) :: rat) \<le> of_int (4 * c)"
    using tr by (simp add: pos_le_divide_eq algebra_simps)
  then show "3 / 4 \<le> (of_int c / of_int t :: rat) \<longleftrightarrow> 3 * t \<le> 4 * c"
    by (simp only: of_int_le_iff)
  have "1 / 2 \<le> (of_int c / of_int t :: rat) \<longleftrightarrow> (of_int t :: rat) \<le> of_int (2 * c)"
    using tr by (simp add: pos_le_divide_eq algebra_simps)
  then show "1 / 2 \<le> (of_int c / of_int t :: rat) \<longleftrightarrow> t \<le> 2 * c"
    by (simp only: of_int_le_iff)
  have "1 / 4 \<le> (of_int c / of_int t :: rat) \<longleftrightarrow> (of_int t :: rat) \<le> of_int (4 * c)"
    using tr by (simp add: pos_le_divide_eq algebra_simps)
  then show "1 / 4 \<le> (of_int c / of_int t :: rat) \<longleftrightarrow> t \<le> 4 * c"
    by (simp only: of_int_le_iff)
qed

lemma band_of_float_ratio:
  fixes c t :: int
  assumes "0 < c" and "0 < t" and "t \<le> 2 ^ 51"
  shows "band_of_ratio (to_double (of_int c / of_int t)) = band_of_ratio (of_int c / of_int t)"
  unfolding band_of_ratio_def
  by (simp only: ratio_bands [OF assms] exact_ratio_bands [OF assms(2)])

lemma color_is_band_of_ratio:
  assumes "t \<noteq> 0" and "c \<noteq> 0"
  shows "\<exists>col. get_color_for_count t c = Inr col
            \<and> band_of_color col = Some (band_of_ratio (to_double (of_int c / of_int t)))"
  using assms
  by (simp add: get_color_for_count_def truediv_def band_of_ratio_def band_of_color_def)

text \<open>
  C2: \<^verbatim>\<open>get_color_for_count\<close> never raises and always returns one of the six colours.
  It gives white (\<open>NONE\<close>) when the total or the count is 0; otherwise it gives the band
  of the ratio \<^verbatim>\<open>count / total\<close> in the order of the table, each band with its lower
  bound: 1 is \<open>FULL\<close>, 0.75 is \<open>HIGH\<close>, 0.5 is \<open>MEDIUM\<close>, 0.25 is \<open>LOW\<close> and a positive
  ratio below 0.25 is \<open>MINIMAL\<close>. The source compares the float quotient; for a total up
  to \<open>2 ^ 51\<close> this is the band of the exact ratio, that is, the specification's
  \<^verbatim>\<open>classifyCoverage\<close>, whose bands are the integer conditions stated last.
\<close>

theorem classifyCoverage_bands:
  "(t = 0 \<or> c = 0 \<longrightarrow>
      get_color_for_count t c = Inr ''white'' \<and> band_of_color ''white'' = Some NONE
      \<and> classifyCoverage c t = NONE)
   \<and> (t \<noteq> 0 \<and> c \<noteq> 0 \<longrightarrow>
        (\<exists>col. get_color_for_count t c = Inr col
             \<and> band_of_color col = Some (band_of_ratio (to_double (of_int c / of_int t)))))
   \<and> band_of_ratio 1 = FULL \<and> band_of_ratio (3 / 4) = HIGH \<and> band_of_ratio (1 / 2) = MEDIUM
   \<and> band_of_ratio (1 / 4) = LOW \<and> (r < 1 / 4 \<longrightarrow> band_of_ratio r = MINIMAL)
   \<and> (0 \<le> c \<and> 0 \<le> t \<and> t \<le> 2 ^ 51 \<longrightarrow>
        (\<exists>col. get_color_for_count t c = Inr col \<and> band_of_color col = Some (classifyCoverage c t)))
   \<and> (0 < c \<and> 0 < t \<longrightarrow>
        (classifyCoverage c t = FULL \<longleftrightarrow> c = t)
        \<and> (classifyCoverage c t = HIGH \<longleftrightarrow> c \<noteq> t \<and> 3 * t \<le> 4 * c)
        \<and> (classifyCoverage c t = MEDIUM \<longleftrightarrow> 4 * c < 3 * t \<and> t \<le> 2 * c)
        \<and> (classifyCoverage c t = LOW \<longleftrightarrow> 2 * c < t \<and> t \<le> 4 * c)
        \<and> (classifyCoverage c t = MINIMAL \<longleftrightarrow> 4 * c < t))"
proof -
  have 1: "t = 0 \<or> c = 0 \<longrightarrow>
      get_color_for_count t c = Inr ''white'' \<and> band_of_color ''white'' = Some NONE
      \<and> classifyCoverage c t = NONE"
    by (auto simp: get_color_for_count_def band_of_color_def classifyCoverage_def)
  have 2: "t \<noteq> 0 \<and> c \<noteq> 0 \<longrightarrow>
        (\<exists>col. get_color_for_count t c = Inr col
             \<and> band_of_color col = Some (band_of_ratio (to_double (of_int c / of_int t))))"
    using color_is_band_of_ratio by blast
  have 3: "band_of_ratio 1 = FULL \<and> band_of_ratio (3 / 4) = HIGH \<and> band_of_ratio (1 / 2) = MEDIUM
      \<and> band_of_ratio (1 / 4) = LOW \<and> (r < 1 / 4 \<longrightarrow> band_of_ratio r = MINIMAL)"
    by (simp add: band_of_ratio_def)
  have 4: "0 \<le> c \<and> 0 \<le> t \<and> t \<le> 2 ^ 51 \<longrightarrow>
        (\<exists>col. get_color_for_count t c = Inr col \<and> band_of_color col = Some (classifyCoverage c t))"
  proof (intro impI, elim conjE)
    assume c: "0 \<le> c" and t: "0 \<le> t" and b: "t \<le> 2 ^ 51"
    show "\<exists>col. get_color_for_count t c = Inr col \<and> band_of_color col = Some (classifyCoverage c t)"
    proof (cases "t = 0 \<or> c = 0")
      case True
      then show ?thesis using 1 by auto
    next
      case False
      then have "0 < c" "0 < t" using c t by simp_all
      then have "band_of_ratio (to_double (of_int c / of_int t)) = classifyCoverage c t"
        using False b by (simp add: band_of_float_ratio classifyCoverage_def)
      then show ?thesis using color_is_band_of_ratio [of t c] False by simp
    qed
  qed
  have 5: "0 < c \<and> 0 < t \<longrightarrow>
        (classifyCoverage c t = FULL \<longleftrightarrow> c = t)
        \<and> (classifyCoverage c t = HIGH \<longleftrightarrow> c \<noteq> t \<and> 3 * t \<le> 4 * c)
        \<and> (classifyCoverage c t = MEDIUM \<longleftrightarrow> 4 * c < 3 * t \<and> t \<le> 2 * c)
        \<and> (classifyCoverage c t = LOW \<longleftrightarrow> 2 * c < t \<and> t \<le> 4 * c)
        \<and> (classifyCoverage c t = MINIMAL \<longleftrightarrow> 4 * c < t)"
  proof (intro impI, elim conjE)
    assume c: "0 < c" and t: "0 < t"
    have k: "classifyCoverage c t =
        (if c = t then FULL else if 3 * t \<le> 4 * c then HIGH else if t \<le> 2 * c then MEDIUM
         else if t \<le> 4 * c then LOW else MINIMAL)"
      using c t unfolding classifyCoverage_def band_of_ratio_def
      by (simp only: exact_ratio_bands [OF t]) simp
    show "(classifyCoverage c t = FULL \<longleftrightarrow> c = t)
        \<and> (classifyCoverage c t = HIGH \<longleftrightarrow> c \<noteq> t \<and> 3 * t \<le> 4 * c)
        \<and> (classifyCoverage c t = MEDIUM \<longleftrightarrow> 4 * c < 3 * t \<and> t \<le> 2 * c)
        \<and> (classifyCoverage c t = LOW \<longleftrightarrow> 2 * c < t \<and> t \<le> 4 * c)
        \<and> (classifyCoverage c t = MINIMAL \<longleftrightarrow> 4 * c < t)"
      using c t by (auto simp: k)
  qed
  show ?thesis using 1 2 3 4 5 by blast
qed

theorem classifyCoverage_bands_witness:
  "get_color_for_count 0 3 = Inr ''white'' \<and> classifyCoverage 3 0 = NONE
   \<and> get_color_for_count 4 1 = Inr ''#FFEB3B'' \<and> band_of_color ''#FFEB3B'' = Some LOW
   \<and> classifyCoverage 1 4 = LOW \<and> band_of_ratio (1 / 5) = MINIMAL
   \<and> get_color_for_count 4 4 = Inr ''#1B5E20'' \<and> classifyCoverage 4 4 = FULL
   \<and> get_color_for_count 4 3 = Inr ''#4CAF50'' \<and> classifyCoverage 3 4 = HIGH
   \<and> get_color_for_count 4 2 = Inr ''#8BC34A'' \<and> classifyCoverage 2 4 = MEDIUM
   \<and> get_color_for_count 5 1 = Inr ''#FFCDD2'' \<and> classifyCoverage 1 5 = MINIMAL"
proof -
  have g: "get_color_for_count 4 1 = Inr ''#FFEB3B''" "get_color_for_count 4 4 = Inr ''#1B5E20''"
    "get_color_for_count 4 3 = Inr ''#4CAF50''" "get_color_for_count 4 2 = Inr ''#8BC34A''"
    "get_color_for_count 5 1 = Inr ''#FFCDD2''"
    by code_simp+
  have b: "band_of_color ''#FFEB3B'' = Some LOW" by (simp add: band_of_color_def)
  show ?thesis
    using classifyCoverage_bands [of 0 3 "1 / 5"] classifyCoverage_bands [of 4 1 "1 / 5"]
      classifyCoverage_bands [of 4 4 "1 / 5"] classifyCoverage_bands [of 4 3 "1 / 5"]
      classifyCoverage_bands [of 4 2 "1 / 5"] classifyCoverage_bands [of 5 1 "1 / 5"] g b
    by simp
qed

text \<open>
  Beyond that bound the float quotient can round onto a threshold that the exact ratio
  does not reach: a registry of \<open>2 ^ 55\<close> participants, all but one of them free, would
  be coloured as if everyone were free.
\<close>

lemma float_ratio_rounds_to_one: "get_color_for_count (2 ^ 55) (2 ^ 55 - 1) = Inr ''#1B5E20''"
  by code_simp

section \<open>Universal newlines\<close>

lemma universal_newlines_Cons: "c \<noteq> CR \<Longrightarrow> universal_newlines (c # cs) = c # universal_newlines cs"
  by (cases cs) simp_all

lemma universal_newlines_CR_LF: "universal_newlines (CR # LF # cs) = LF # universal_newlines cs"
  by simp

lemma universal_newlines_CR:
  "s = [] \<or> hd s \<noteq> LF \<Longrightarrow> universal_newlines (CR # s) = LF # universal_newlines s"
  by (cases s) auto

lemma universal_newlines_append:
  assumes "a = [] \<or> last a \<noteq> CR \<or> b = [] \<or> hd b \<noteq> LF"
  shows "universal_newlines (a @ b) = universal_newlines a @ universal_newlines b"
  using assms
proof (induction a rule: universal_newlines.induct)
  case 1
  then show ?case by simp
next
  case (2 c)
  show ?case
  proof (cases b)
    case Nil
    then show ?thesis by simp
  next
    case (Cons c' bs)
    then show ?thesis using 2 by auto
  qed
next
  case (3 c c' cs)
  have tail: "c' # cs = [] \<or> last (c' # cs) \<noteq> CR \<or> b = [] \<or> hd b \<noteq> LF"
    using "3.prems" by simp
  show ?case
  proof (cases "c = CR")
    case False
    then show ?thesis using "3.IH"(3) tail by simp
  next
    case True
    show ?thesis
    proof (cases "c' = LF")
      case False
      then show ?thesis using True "3.IH"(2) tail by simp
    next
      case L: True
      have "cs = [] \<or> last cs \<noteq> CR \<or> b = [] \<or> hd b \<noteq> LF"
        using "3.prems" by (cases cs) auto
      then show ?thesis using True L "3.IH"(1) by simp
    qed
  qed
qed

lemma universal_newlines_no_CR: "CR \<notin> set (universal_newlines s)"
  by (induction s rule: universal_newlines.induct) auto

lemma universal_newlines_id: "CR \<notin> set s \<Longrightarrow> universal_newlines s = s"
  by (induction s rule: universal_newlines.induct) auto

lemma universal_newlines_empty_iff: "universal_newlines s = [] \<longleftrightarrow> s = []"
  by (induction s rule: universal_newlines.induct) auto

lemma universal_newlines_double_quotes:
  "universal_newlines (double_quotes f) = double_quotes (universal_newlines f)"
proof (induction f rule: universal_newlines.induct)
  case 1
  then show ?case by (simp add: double_quotes_def)
next
  case (2 c)
  then show ?case by (simp add: double_quotes_def)
next
  case (3 c c' cs)
  have dq: "double_quotes (x # xs) = (if x = DQUOTE then [DQUOTE, DQUOTE] else [x]) @ double_quotes xs"
    for x xs by (simp add: double_quotes_def)
  show ?case
  proof (cases "c = CR")
    case True
    show ?thesis
    proof (cases "c' = LF")
      case L: True
      then show ?thesis using True "3.IH"(1) by (simp add: dq)
    next
      case False
      have h: "hd (double_quotes (c' # cs)) \<noteq> LF" "double_quotes (c' # cs) \<noteq> []"
        using False by (simp_all add: dq)
      have "universal_newlines (double_quotes (c # c' # cs))
            = universal_newlines (CR # double_quotes (c' # cs))"
        using True by (simp add: dq)
      also have "\<dots> = LF # universal_newlines (double_quotes (c' # cs))"
        using h by (intro universal_newlines_CR) simp
      also have "\<dots> = LF # double_quotes (universal_newlines (c' # cs))"
        using "3.IH"(2) True False by simp
      also have "\<dots> = double_quotes (LF # universal_newlines (c' # cs))"
        by (simp add: dq)
      also have "LF # universal_newlines (c' # cs) = universal_newlines (c # c' # cs)"
        using True False by simp
      finally show ?thesis .
    qed
  next
    case False
    show ?thesis
    proof (cases "c = DQUOTE")
      case True
      then show ?thesis using "3.IH"(3) by (simp add: dq universal_newlines_Cons)
    next
      case Q: False
      then show ?thesis using False "3.IH"(3) by (simp add: dq universal_newlines_Cons)
    qed
  qed
qed

lemma needs_quote_universal_newlines:
  "needs_quote d (universal_newlines f) = needs_quote d f" if "d \<noteq> CR" "d \<noteq> LF"
  using that
  by (induction f rule: universal_newlines.induct) (auto simp: needs_quote_def)

section \<open>The reader on the text of the writer\<close>

lemma writerow_row_text: "writerow d row = row_text d row @ [CR, LF]"
  by (simp add: writerow_def row_text_def Let_def)

lemma reader_step:
  assumes "cs \<noteq> []" and "c \<noteq> LF" and "parse_process_char d p (Some c) = Inr p1"
  shows "reader_loop d p recs (c # cs) = reader_loop d p1 recs cs"
  using assms by simp

lemma reader_plain:
  assumes "\<forall>c \<in> set g. c \<noteq> d \<and> c \<noteq> DQUOTE \<and> c \<noteq> LF \<and> c \<noteq> CR" and "rest \<noteq> []"
  shows "reader_loop d \<lparr>state = IN_FIELD, row_fields = F, field = acc\<rparr> recs (g @ rest)
         = reader_loop d \<lparr>state = IN_FIELD, row_fields = F, field = acc @ g\<rparr> recs rest"
  using assms
proof (induction g arbitrary: acc)
  case Nil
  then show ?case by simp
next
  case (Cons c g)
  have c: "c \<noteq> d" "c \<noteq> DQUOTE" "c \<noteq> LF" "c \<noteq> CR" using Cons.prems(1) by simp_all
  have "reader_loop d \<lparr>state = IN_FIELD, row_fields = F, field = acc\<rparr> recs (c # (g @ rest))
        = reader_loop d \<lparr>state = IN_FIELD, row_fields = F, field = acc @ [c]\<rparr> recs (g @ rest)"
    using c Cons.prems(2)
    by (intro reader_step) (simp_all add: parse_process_char_def parse_add_char_def)
  also have "\<dots> = reader_loop d \<lparr>state = IN_FIELD, row_fields = F, field = (acc @ [c]) @ g\<rparr> recs rest"
    using Cons.prems by (intro Cons.IH) simp_all
  finally show ?case by simp
qed

lemma reader_plain_start:
  assumes "\<forall>c \<in> set g. c \<noteq> d \<and> c \<noteq> DQUOTE \<and> c \<noteq> LF \<and> c \<noteq> CR" and "rest \<noteq> []"
    and "g \<noteq> []" and "s = START_RECORD \<or> s = START_FIELD"
  shows "reader_loop d \<lparr>state = s, row_fields = F, field = []\<rparr> recs (g @ rest)
         = reader_loop d \<lparr>state = IN_FIELD, row_fields = F, field = g\<rparr> recs rest"
proof -
  obtain c g' where g: "g = c # g'" using assms(3) by (cases g) auto
  have c: "c \<noteq> d" "c \<noteq> DQUOTE" "c \<noteq> LF" "c \<noteq> CR" using assms(1) by (simp_all add: g)
  have "reader_loop d \<lparr>state = s, row_fields = F, field = []\<rparr> recs (c # (g' @ rest))
        = reader_loop d \<lparr>state = IN_FIELD, row_fields = F, field = [c]\<rparr> recs (g' @ rest)"
    using c assms(2,4)
    by (intro reader_step) (auto simp: parse_process_char_def start_field_def parse_add_char_def)
  also have "\<dots> = reader_loop d \<lparr>state = IN_FIELD, row_fields = F, field = [c] @ g'\<rparr> recs rest"
    using assms(1,2) by (intro reader_plain) (simp_all add: g)
  finally show ?thesis by (simp add: g)
qed

lemma reader_quoted_body:
  assumes "rest \<noteq> []"
  shows "reader_loop d \<lparr>state = IN_QUOTED_FIELD, row_fields = F, field = acc\<rparr> recs
           (double_quotes g @ DQUOTE # rest)
         = reader_loop d \<lparr>state = QUOTE_IN_QUOTED_FIELD, row_fields = F, field = acc @ g\<rparr> recs rest"
proof (induction g arbitrary: acc)
  case Nil
  show ?case using assms
    by (simp add: double_quotes_def parse_process_char_def)
next
  case (Cons c g)
  let ?tail = "double_quotes g @ DQUOTE # rest"
  have ne: "?tail \<noteq> []" by simp
  have IH: "reader_loop d \<lparr>state = IN_QUOTED_FIELD, row_fields = F, field = acc @ [c]\<rparr> recs ?tail
        = reader_loop d \<lparr>state = QUOTE_IN_QUOTED_FIELD, row_fields = F, field = acc @ c # g\<rparr> recs rest"
    using Cons.IH [of "acc @ [c]"] by simp
  show ?case
  proof (cases "c = DQUOTE")
    case True
    have "double_quotes (c # g) @ DQUOTE # rest = DQUOTE # DQUOTE # ?tail"
      using True by (simp add: double_quotes_def)
    moreover have "reader_loop d \<lparr>state = IN_QUOTED_FIELD, row_fields = F, field = acc\<rparr> recs
                     (DQUOTE # DQUOTE # ?tail)
          = reader_loop d \<lparr>state = IN_QUOTED_FIELD, row_fields = F, field = acc @ [DQUOTE]\<rparr> recs ?tail"
      by (simp add: parse_process_char_def parse_add_char_def)
    ultimately show ?thesis using IH True by simp
  next
    case False
    have t: "double_quotes (c # g) @ DQUOTE # rest = c # ?tail"
      using False by (simp add: double_quotes_def)
    have "reader_loop d \<lparr>state = IN_QUOTED_FIELD, row_fields = F, field = acc\<rparr> recs (c # ?tail)
          = reader_loop d \<lparr>state = IN_QUOTED_FIELD, row_fields = F, field = acc @ [c]\<rparr> recs ?tail"
      using False by (simp add: parse_process_char_def parse_add_char_def)
    then show ?thesis using IH t by simp
  qed
qed

lemma reader_quoted:
  assumes "rest \<noteq> []" and "s = START_RECORD \<or> s = START_FIELD"
  shows "reader_loop d \<lparr>state = s, row_fields = F, field = []\<rparr> recs
           (DQUOTE # double_quotes g @ DQUOTE # rest)
         = reader_loop d \<lparr>state = QUOTE_IN_QUOTED_FIELD, row_fields = F, field = g\<rparr> recs rest"
proof -
  have "reader_loop d \<lparr>state = s, row_fields = F, field = []\<rparr> recs
           (DQUOTE # (double_quotes g @ DQUOTE # rest))
        = reader_loop d \<lparr>state = IN_QUOTED_FIELD, row_fields = F, field = []\<rparr> recs
           (double_quotes g @ DQUOTE # rest)"
    using assms(2) by (intro reader_step) (auto simp: parse_process_char_def start_field_def)
  then show ?thesis using reader_quoted_body [OF assms(1), of d F "[]" recs g] by simp
qed

lemma reader_delimiter:
  assumes "delimiter_ok d" and "rest \<noteq> []" and "s \<noteq> IN_QUOTED_FIELD" and "s \<noteq> EAT_CRNL"
  shows "reader_loop d \<lparr>state = s, row_fields = F, field = acc\<rparr> recs (d # rest)
         = reader_loop d \<lparr>state = START_FIELD, row_fields = F @ [acc], field = []\<rparr> recs rest"
  using assms
  by (cases s) (simp_all add: delimiter_ok_def parse_process_char_def start_field_def parse_save_field_def)

lemma reader_end_of_line:
  assumes "s = START_FIELD \<or> s = IN_FIELD \<or> s = QUOTE_IN_QUOTED_FIELD" and "delimiter_ok d"
  shows "reader_loop d \<lparr>state = s, row_fields = F, field = acc\<rparr> recs (LF # rest)
         = reader_loop d parse_reset (recs @ [F @ [acc]]) rest"
  using assms
  by (auto simp: parse_process_char_def start_field_def parse_save_field_def delimiter_ok_def)

lemma reader_blank_line:
  "reader_loop d \<lparr>state = START_RECORD, row_fields = F, field = acc\<rparr> recs (LF # rest)
   = reader_loop d parse_reset (recs @ [F]) rest"
  by (simp add: parse_process_char_def)

lemma reader_field:
  assumes "rest \<noteq> []" and "s = START_RECORD \<or> s = START_FIELD"
  shows "\<exists>s1. s1 \<noteq> IN_QUOTED_FIELD \<and> s1 \<noteq> EAT_CRNL
            \<and> (s1 = START_RECORD \<longrightarrow> s = START_RECORD \<and> f = [])
            \<and> reader_loop d \<lparr>state = s, row_fields = F, field = []\<rparr> recs (write_field d f @ rest)
                = reader_loop d \<lparr>state = s1, row_fields = F, field = f\<rparr> recs rest"
proof (cases "needs_quote d f")
  case True
  have "reader_loop d \<lparr>state = s, row_fields = F, field = []\<rparr> recs (write_field d f @ rest)
        = reader_loop d \<lparr>state = QUOTE_IN_QUOTED_FIELD, row_fields = F, field = f\<rparr> recs rest"
    using True reader_quoted [OF assms, of d F recs f] by (simp add: write_field_def)
  then show ?thesis by (intro exI [of _ QUOTE_IN_QUOTED_FIELD]) simp
next
  case False
  then have plain: "\<forall>c \<in> set f. c \<noteq> d \<and> c \<noteq> DQUOTE \<and> c \<noteq> LF \<and> c \<noteq> CR"
    by (auto simp: needs_quote_def list_ex_iff)
  have w: "write_field d f = f" using False by (simp add: write_field_def)
  show ?thesis
  proof (cases "f = []")
    case True
    then show ?thesis using assms(2) w by (intro exI [of _ s]) auto
  next
    case nonempty: False
    have "reader_loop d \<lparr>state = s, row_fields = F, field = []\<rparr> recs (write_field d f @ rest)
          = reader_loop d \<lparr>state = IN_FIELD, row_fields = F, field = f\<rparr> recs rest"
      using reader_plain_start [OF plain assms(1) nonempty assms(2)] by (simp add: w)
    then show ?thesis by (intro exI [of _ IN_FIELD]) simp
  qed
qed

lemma reader_row:
  assumes "delimiter_ok d" and "s = START_RECORD \<or> s = START_FIELD"
    and "s = START_RECORD \<longrightarrow> \<not> (f = [] \<and> fs = [])"
  shows "reader_loop d \<lparr>state = s, row_fields = F, field = []\<rparr> recs
           (join_fields d (map (write_field d) (f # fs)) @ LF # rest)
         = reader_loop d parse_reset (recs @ [F @ f # fs]) rest"
  using assms(2,3)
proof (induction fs arbitrary: f s F)
  case Nil
  obtain s1 where s1: "s1 \<noteq> IN_QUOTED_FIELD" "s1 \<noteq> EAT_CRNL"
      "s1 = START_RECORD \<longrightarrow> s = START_RECORD \<and> f = []"
    and r: "reader_loop d \<lparr>state = s, row_fields = F, field = []\<rparr> recs (write_field d f @ LF # rest)
            = reader_loop d \<lparr>state = s1, row_fields = F, field = f\<rparr> recs (LF # rest)"
    using reader_field [of "LF # rest" s f d F recs] Nil.prems(1) by auto
  have "s1 \<noteq> START_RECORD" using s1(3) Nil.prems(2) by auto
  then have "s1 = START_FIELD \<or> s1 = IN_FIELD \<or> s1 = QUOTE_IN_QUOTED_FIELD"
    using s1(1,2) by (cases s1) auto
  then have "reader_loop d \<lparr>state = s1, row_fields = F, field = f\<rparr> recs (LF # rest)
             = reader_loop d parse_reset (recs @ [F @ [f]]) rest"
    using assms(1) by (rule reader_end_of_line)
  then show ?case using r by simp
next
  case (Cons g gs)
  let ?tail = "join_fields d (map (write_field d) (g # gs)) @ LF # rest"
  have j: "join_fields d (map (write_field d) (f # g # gs)) @ LF # rest
           = write_field d f @ d # ?tail" by simp
  obtain s1 where s1: "s1 \<noteq> IN_QUOTED_FIELD" "s1 \<noteq> EAT_CRNL"
    and r: "reader_loop d \<lparr>state = s, row_fields = F, field = []\<rparr> recs (write_field d f @ d # ?tail)
            = reader_loop d \<lparr>state = s1, row_fields = F, field = f\<rparr> recs (d # ?tail)"
    using reader_field [of "d # ?tail" s f d F recs] Cons.prems(1) by auto
  have "reader_loop d \<lparr>state = s1, row_fields = F, field = f\<rparr> recs (d # ?tail)
        = reader_loop d \<lparr>state = START_FIELD, row_fields = F @ [f], field = []\<rparr> recs ?tail"
    using assms(1) s1 by (intro reader_delimiter) simp_all
  also have "\<dots> = reader_loop d parse_reset (recs @ [(F @ [f]) @ g # gs]) rest"
    by (intro Cons.IH) simp_all
  finally show ?case using r j by simp
qed

lemma row_text_cases:
  "row = [] \<and> row_text d row = []
   \<or> row = [[]] \<and> row_text d row = [DQUOTE, DQUOTE]
   \<or> (\<exists>f fs. row = f # fs \<and> \<not> (f = [] \<and> fs = [])
         \<and> row_text d row = join_fields d (map (write_field d) row))"
proof (cases row)
  case Nil
  then show ?thesis by (simp add: row_text_def)
next
  case (Cons f fs)
  show ?thesis
  proof (cases "f = [] \<and> fs = []")
    case True
    then show ?thesis using Cons by (simp add: row_text_def write_field_def needs_quote_def)
  next
    case False
    have "join_fields d (map (write_field d) (f # fs)) \<noteq> []"
    proof (cases fs)
      case Nil
      then have "f \<noteq> []" using False by simp
      then have "write_field d f \<noteq> []" by (simp add: write_field_def)
      then show ?thesis using Nil by simp
    next
      case (Cons g gs)
      then show ?thesis by simp
    qed
    then show ?thesis using Cons False by (auto simp: row_text_def)
  qed
qed

lemma reader_row_text:
  assumes "delimiter_ok d"
  shows "reader_loop d parse_reset recs (row_text d row @ LF # rest)
         = reader_loop d parse_reset (recs @ [row]) rest"
  using row_text_cases [of row d]
proof (elim disjE conjE exE)
  assume "row = []" "row_text d row = []"
  then show ?thesis using reader_blank_line [of d "[]" "[]" recs rest]
    by (simp add: parse_reset_def)
next
  assume "row = [[]]" and t: "row_text d row = [DQUOTE, DQUOTE]"
  have "reader_loop d \<lparr>state = START_RECORD, row_fields = [], field = []\<rparr> recs
          (DQUOTE # double_quotes [] @ DQUOTE # LF # rest)
        = reader_loop d \<lparr>state = QUOTE_IN_QUOTED_FIELD, row_fields = [], field = []\<rparr> recs (LF # rest)"
    by (intro reader_quoted) simp_all
  also have "\<dots> = reader_loop d parse_reset (recs @ [[] @ [[]]]) rest"
    using assms by (intro reader_end_of_line) simp_all
  finally show ?thesis using \<open>row = [[]]\<close> t by (simp add: parse_reset_def double_quotes_def)
next
  fix f fs
  assume row: "row = f # fs" and ne: "\<not> (f = [] \<and> fs = [])"
    and t: "row_text d row = join_fields d (map (write_field d) row)"
  have "reader_loop d \<lparr>state = START_RECORD, row_fields = [], field = []\<rparr> recs
          (join_fields d (map (write_field d) (f # fs)) @ LF # rest)
        = reader_loop d parse_reset (recs @ [[] @ f # fs]) rest"
    using assms ne by (intro reader_row) simp_all
  then show ?thesis using row t by (simp add: parse_reset_def)
qed

lemma reader_rows:
  assumes "delimiter_ok d"
  shows "reader_loop d parse_reset recs (concat (map (\<lambda>row. row_text d row @ [LF]) rows))
         = Inr (recs @ rows)"
proof (induction rows arbitrary: recs)
  case Nil
  then show ?case by (simp add: parse_reset_def)
next
  case (Cons row rows)
  have "reader_loop d parse_reset recs
          (row_text d row @ LF # concat (map (\<lambda>row. row_text d row @ [LF]) rows))
        = reader_loop d parse_reset (recs @ [row]) (concat (map (\<lambda>row. row_text d row @ [LF]) rows))"
    using assms by (rule reader_row_text)
  then show ?case using Cons.IH [of "recs @ [row]"] by simp
qed

section \<open>Reading back what the writer wrote\<close>

lemma ends_ok_write_field: "ends_ok (write_field d f)"
proof (cases "needs_quote d f")
  case True
  then show ?thesis by (simp add: ends_ok_def write_field_def)
next
  case False
  then have "CR \<notin> set f" by (auto simp: needs_quote_def list_ex_iff)
  then have "f = [] \<or> last f \<noteq> CR" by (cases "f = []") (auto dest: last_in_set)
  then show ?thesis using False by (simp add: ends_ok_def write_field_def)
qed

lemma ends_ok_join_fields:
  assumes "d \<noteq> CR" and "\<forall>w \<in> set ws. ends_ok w"
  shows "ends_ok (join_fields d ws)"
  using assms
proof (induction d ws rule: join_fields.induct)
  case (1 d)
  then show ?case by (simp add: ends_ok_def)
next
  case (2 d f)
  then show ?case by simp
next
  case (3 d f g fs)
  then have "ends_ok (join_fields d (g # fs))" by simp
  then show ?case using "3.prems"(1) by (auto simp: ends_ok_def)
qed

lemma ends_ok_row_text: "d \<noteq> CR \<Longrightarrow> ends_ok (row_text d row)"
proof -
  assume d: "d \<noteq> CR"
  have "ends_ok (join_fields d (map (write_field d) row))"
    using d by (intro ends_ok_join_fields) (simp_all add: ends_ok_write_field)
  moreover have "ends_ok [DQUOTE, DQUOTE]" by (simp add: ends_ok_def)
  ultimately show ?thesis by (simp add: row_text_def Let_def)
qed

lemma universal_newlines_join_fields:
  assumes "d \<noteq> CR" and "\<forall>w \<in> set ws. ends_ok w"
  shows "universal_newlines (join_fields d ws) = join_fields d (map universal_newlines ws)"
  using assms
proof (induction d ws rule: join_fields.induct)
  case (1 d)
  then show ?case by simp
next
  case (2 d f)
  then show ?case by simp
next
  case (3 d f g fs)
  have f: "f = [] \<or> last f \<noteq> CR" using "3.prems" by (simp add: ends_ok_def)
  have "universal_newlines (f @ d # join_fields d (g # fs))
        = universal_newlines f @ universal_newlines (d # join_fields d (g # fs))"
    using f by (intro universal_newlines_append) auto
  also have "universal_newlines (d # join_fields d (g # fs))
             = d # universal_newlines (join_fields d (g # fs))"
    using "3.prems"(1) by (rule universal_newlines_Cons)
  finally show ?case using "3.IH" "3.prems" by simp
qed

lemma universal_newlines_write_field:
  assumes "delimiter_ok d"
  shows "universal_newlines (write_field d f) = write_field d (universal_newlines f)"
proof -
  have d: "d \<noteq> CR" "d \<noteq> LF" using assms by (simp_all add: delimiter_ok_def)
  have nq: "needs_quote d (universal_newlines f) = needs_quote d f"
    by (rule needs_quote_universal_newlines [OF d])
  show ?thesis
  proof (cases "needs_quote d f")
    case True
    have "universal_newlines (DQUOTE # double_quotes f @ [DQUOTE])
          = DQUOTE # universal_newlines (double_quotes f @ [DQUOTE])"
      by (rule universal_newlines_Cons) simp
    also have "universal_newlines (double_quotes f @ [DQUOTE])
               = universal_newlines (double_quotes f) @ universal_newlines [DQUOTE]"
      by (intro universal_newlines_append) simp
    finally show ?thesis using True nq
      by (simp add: write_field_def universal_newlines_double_quotes)
  next
    case False
    then have "CR \<notin> set f" by (auto simp: needs_quote_def list_ex_iff)
    then have "universal_newlines f = f" by (rule universal_newlines_id)
    then show ?thesis using False by (simp add: write_field_def)
  qed
qed

lemma universal_newlines_row_text:
  assumes "delimiter_ok d"
  shows "universal_newlines (row_text d row) = row_text d (map universal_newlines row)"
proof -
  have d: "d \<noteq> CR" using assms by (simp add: delimiter_ok_def)
  let ?rec = "join_fields d (map (write_field d) row)"
  let ?rec' = "join_fields d (map (write_field d) (map universal_newlines row))"
  have "universal_newlines ?rec = join_fields d (map universal_newlines (map (write_field d) row))"
    using d by (intro universal_newlines_join_fields) (simp_all add: ends_ok_write_field)
  also have "map universal_newlines (map (write_field d) row)
             = map (write_field d) (map universal_newlines row)"
    by (simp add: universal_newlines_write_field [OF assms])
  finally have r: "universal_newlines ?rec = ?rec'" .
  have e: "?rec' = [] \<longleftrightarrow> ?rec = []"
    using r universal_newlines_empty_iff [of ?rec] by simp
  show ?thesis
  proof (cases "?rec = [] \<and> row \<noteq> []")
    case True
    then show ?thesis using e by (simp add: row_text_def)
  next
    case False
    then show ?thesis using e r by (auto simp: row_text_def)
  qed
qed

lemma universal_newlines_writerow:
  assumes "delimiter_ok d"
  shows "universal_newlines (writerow d row @ rest)
         = row_text d (map universal_newlines row) @ LF # universal_newlines rest"
proof -
  have d: "d \<noteq> CR" using assms by (simp add: delimiter_ok_def)
  have "row_text d row = [] \<or> last (row_text d row) \<noteq> CR"
    using ends_ok_row_text [OF d, of row] by (simp add: ends_ok_def)
  then have "universal_newlines (row_text d row @ CR # LF # rest)
        = universal_newlines (row_text d row) @ universal_newlines (CR # LF # rest)"
    by (intro universal_newlines_append) auto
  then show ?thesis
    by (simp add: writerow_row_text universal_newlines_row_text [OF assms])
qed

lemma universal_newlines_rows:
  assumes "delimiter_ok d"
  shows "universal_newlines (concat (map (writerow d) rows) @ rest)
         = concat (map (\<lambda>row. row_text d row @ [LF]) (map (map universal_newlines) rows))
           @ universal_newlines rest"
proof (induction rows)
  case Nil
  then show ?case by simp
next
  case (Cons row rows)
  have "universal_newlines (writerow d row @ (concat (map (writerow d) rows) @ rest))
        = row_text d (map universal_newlines row) @ LF
            # universal_newlines (concat (map (writerow d) rows) @ rest)"
    using assms by (rule universal_newlines_writerow)
  then show ?case using Cons.IH by simp
qed

text \<open>
  Reading a file in the dialect it was written in gives the rows back, with the line
  breaks inside a field normalised by the universal newlines of the text file.
\<close>

lemma csv_roundtrip:
  assumes "delimiter_ok d"
  shows "csv_reader d (universal_newlines (concat (map (writerow d) rows)))
         = Inr (map (map universal_newlines) rows)"
proof -
  have "universal_newlines (concat (map (writerow d) rows) @ [])
        = concat (map (\<lambda>row. row_text d row @ [LF]) (map (map universal_newlines) rows))
          @ universal_newlines []"
    using assms by (rule universal_newlines_rows)
  moreover have "reader_loop d parse_reset []
      (concat (map (\<lambda>row. row_text d row @ [LF]) (map (map universal_newlines) rows)))
      = Inr ([] @ map (map universal_newlines) rows)"
    using assms by (rule reader_rows)
  ultimately show ?thesis by (simp add: csv_reader_def)
qed

lemma delimiter_ok_TAB: "delimiter_ok TAB"
  by (simp add: delimiter_ok_def)

section \<open>Exporting a schedule and loading it again\<close>

lemma list_index_DAYS: "0 \<le> day \<Longrightarrow> day < 7 \<Longrightarrow> list_index DAYS day = Inr (DAYS ! nat day)"
  by (simp add: list_index_def DAYS_def)

lemma write_schedule_rows_in_grid:
  assumes "\<forall>cell \<in> set cells. in_grid cell"
  shows "write_schedule_rows u cells out
         = (out @ concat (map (writerow TAB) (schedule_rows u cells)), None)"
  using assms
proof (induction cells arbitrary: out)
  case Nil
  then show ?case by (simp add: schedule_rows_def)
next
  case (Cons cell cells)
  obtain day hour where c: "cell = (day, hour)" by (cases cell)
  have "0 \<le> day" "day < 7" using Cons.prems by (simp_all add: c in_grid_def DAYS_def)
  then have i: "list_index DAYS day = Inr (DAYS ! nat day)" by (rule list_index_DAYS)
  have "\<forall>cell \<in> set cells. in_grid cell" using Cons.prems by simp
  then show ?case using Cons.IH i by (simp add: c schedule_rows_def)
qed

lemma str_int_no_CR: "CR \<notin> set (str_int i)"
proof -
  have "\<not> is_digit CR" by (simp add: is_digit_def)
  then have "CR \<notin> set (str_nat n)" for n
    using str_nat_digits [of n] by (auto simp: list_all_iff)
  then show ?thesis by (simp add: str_int_def)
qed

lemma py_int_read_back: "py_int (Some (universal_newlines (str_int i))) = Inr i"
  by (simp add: universal_newlines_id [OF str_int_no_CR] py_int_str_int)

lemma make_row_export:
  "make_row [''username'', ''day'', ''day_name'', ''hour''] [a, b, c, e]
   = [(''username'', Some a), (''day'', Some b), (''day_name'', Some c), (''hour'', Some e)]"
  by (simp add: make_row_def)

lemma read_rows_export:
  "read_rows fn
     (map (make_row [''username'', ''day'', ''day_name'', ''hour''])
        (map (map universal_newlines) (schedule_rows u cells))) un acc
   = Inr (if cells = [] then un else (case un of None \<Rightarrow> Some (universal_newlines u) | Some x \<Rightarrow> Some x),
          acc @ cells)"
proof (induction cells arbitrary: un acc)
  case Nil
  then show ?case by (simp add: schedule_rows_def)
next
  case (Cons cell cells)
  obtain day hour where c: "cell = (day, hour)" by (cases cell)
  show ?case using Cons.IH
    by (cases un; cases "cells = []")
       (simp_all add: c schedule_rows_def make_row_export py_int_read_back Let_def)
qed

lemma export_schedule_file:
  assumes "strip name \<noteq> []" and "schedule c \<noteq> []"
    and "\<forall>cell \<in> set (dict_keys (schedule c)). in_grid cell" and "fn \<noteq> []"
  shows "export_schedule name c fn fs
         = (Some (ShowInfo (''Schedule exported to:'' @ [LF] @ fn)),
            fs(fn \<mapsto> concat (map (writerow TAB)
                 ([''username'', ''day'', ''day_name'', ''hour'']
                  # schedule_rows (strip name) (get_schedule_data c)))))"
proof -
  have "length (get_schedule_data c) = length (schedule c)"
    by (simp add: get_schedule_data_def dict_keys_def)
  then have ne: "get_schedule_data c \<noteq> []" using assms(2) by auto
  have "\<forall>cell \<in> set (get_schedule_data c). in_grid cell"
    using assms(3) by (simp add: get_schedule_data_def)
  then have "write_schedule_rows (strip name) (get_schedule_data c)
               (writerow TAB [''username'', ''day'', ''day_name'', ''hour''])
             = (writerow TAB [''username'', ''day'', ''day_name'', ''hour'']
                @ concat (map (writerow TAB) (schedule_rows (strip name) (get_schedule_data c))), None)"
    by (rule write_schedule_rows_in_grid)
  then show ?thesis using assms(1,4) ne by (simp add: export_schedule_def Let_def)
qed

lemma load_exported_file:
  assumes "endswith fn ''.tsv''" and "cells \<noteq> []"
    and "fs fn = Some (concat (map (writerow TAB)
                 ([''username'', ''day'', ''day_name'', ''hour''] # schedule_rows u cells)))"
  shows "load_file fs fn = Inr (Some (universal_newlines u), cells)"
proof -
  let ?h = "[''username'', ''day'', ''day_name'', ''hour'']"
  have h: "map universal_newlines ?h = ?h" by simp
  have "csv_reader TAB (universal_newlines (concat (map (writerow TAB) (?h # schedule_rows u cells))))
        = Inr (map (map universal_newlines) (?h # schedule_rows u cells))"
    using delimiter_ok_TAB by (rule csv_roundtrip)
  then have r: "csv_reader TAB (universal_newlines (concat (map (writerow TAB) (?h # schedule_rows u cells))))
        = Inr (?h # map (map universal_newlines) (schedule_rows u cells))"
    using h by simp
  have f: "filter (\<lambda>r. r \<noteq> []) (map (map universal_newlines) (schedule_rows u cells))
           = map (map universal_newlines) (schedule_rows u cells)"
    by (simp add: schedule_rows_def filter_id_conv split: prod.splits)
  have d: "dict_reader TAB (universal_newlines (concat (map (writerow TAB) (?h # schedule_rows u cells))))
        = Inr (map (make_row ?h) (map (map universal_newlines) (schedule_rows u cells)))"
    unfolding dict_reader_def r by (simp only: f sum.case list.case)
  show ?thesis
    unfolding load_file_def Let_def using assms(1,2)
    by (simp only: assms(3) option.case d sum.case read_rows_export if_True) simp
qed

lemma update_overlaps_registry: "loaded_schedules (fst (update_overlaps a)) = loaded_schedules a"
  by (cases "loaded_schedules a = []") (simp_all add: update_overlaps_empty update_overlaps_fields)

lemma load_schedules_single:
  "loaded_schedules (fst (load_schedules a fs [fn])) = loaded_schedules (fst (load_one fs (a, []) fn))"
  "fst (snd (load_schedules a fs [fn])) = snd (load_one fs (a, []) fn)"
proof -
  obtain a1 errs where o: "load_one fs (a, []) fn = (a1, errs)" by (cases "load_one fs (a, []) fn")
  obtain a2 ex where u: "update_overlaps a1 = (a2, ex)" by (cases "update_overlaps a1")
  have "loaded_schedules a2 = loaded_schedules a1"
    using update_overlaps_registry [of a1] by (simp add: u)
  then show "loaded_schedules (fst (load_schedules a fs [fn]))
             = loaded_schedules (fst (load_one fs (a, []) fn))"
    by (simp add: load_schedules_def o u)
  show "fst (snd (load_schedules a fs [fn])) = snd (load_one fs (a, []) fn)"
    by (simp add: load_schedules_def o u)
qed

lemma endswith_nonempty: "endswith fn ''.tsv'' \<Longrightarrow> fn \<noteq> []"
  by (auto simp: endswith_def)

text \<open>
  C6, as the code has it: the round trip holds when the exported file is saved under a
  name that ends in \<^verbatim>\<open>.tsv\<close>. For every non-empty availability set inside the grid and
  every name that is not blank, \<^verbatim>\<open>export_schedule\<close> writes the file and reports
  success, and loading that file reads the sorted list of the set's coordinates: the
  loaded schedule has no duplicates and holds exactly the coordinates of the original
  set. \<^verbatim>\<open>load_schedules\<close> appends it to the registry and shows no error box.
\<close>

theorem export_import_roundtrip:
  assumes "strip name \<noteq> []" and "schedule c \<noteq> []" and "schedule_ok (schedule c)"
    and "\<forall>cell \<in> set (dict_keys (schedule c)). in_grid cell" and "endswith fn ''.tsv''"
  shows "fst (export_schedule name c fn fs) = Some (ShowInfo (''Schedule exported to:'' @ [LF] @ fn))
       \<and> load_file (snd (export_schedule name c fn fs)) fn
           = Inr (Some (universal_newlines (strip name)), get_schedule_data c)
       \<and> set (get_schedule_data c) = set (dict_keys (schedule c))
       \<and> distinct (get_schedule_data c)
       \<and> (\<exists>username. loaded_schedules (fst (load_schedules a (snd (export_schedule name c fn fs)) [fn]))
             = loaded_schedules a @ [(username, get_schedule_data c)])
       \<and> fst (snd (load_schedules a (snd (export_schedule name c fn fs)) [fn])) = []"
proof -
  let ?cells = "get_schedule_data c"
  let ?fs = "snd (export_schedule name c fn fs)"
  have fn: "fn \<noteq> []" using assms(5) by (rule endswith_nonempty)
  have e: "export_schedule name c fn fs
         = (Some (ShowInfo (''Schedule exported to:'' @ [LF] @ fn)),
            fs(fn \<mapsto> concat (map (writerow TAB)
                 ([''username'', ''day'', ''day_name'', ''hour''] # schedule_rows (strip name) ?cells))))"
    using assms(1,2,4) fn by (rule export_schedule_file)
  have "length ?cells = length (schedule c)" by (simp add: get_schedule_data_def dict_keys_def)
  then have ne: "?cells \<noteq> []" using assms(2) by auto
  have "?fs fn = Some (concat (map (writerow TAB)
                 ([''username'', ''day'', ''day_name'', ''hour''] # schedule_rows (strip name) ?cells)))"
    by (simp add: e)
  then have l: "load_file ?fs fn = Inr (Some (universal_newlines (strip name)), ?cells)"
    using assms(5) ne by (intro load_exported_file)
  have u: "universal_newlines (strip name) \<noteq> []"
    using assms(1) by (simp add: universal_newlines_empty_iff)
  have s: "set ?cells = set (dict_keys (schedule c))" by (simp add: get_schedule_data_def)
  have d: "distinct ?cells" using assms(3) by (simp add: get_schedule_data_def schedule_ok_def)
  have o: "load_one ?fs (a, []) fn = (add_schedule a (universal_newlines (strip name)) ?cells, [])"
    using l u ne by (simp add: load_one_def)
  have r: "loaded_schedules (fst (load_schedules a ?fs [fn]))
           = loaded_schedules a @ [(unique_name (dict_keys (loaded_schedules a))
                (universal_newlines (strip name)) (universal_newlines (strip name)) 1, ?cells)]"
    by (simp add: load_schedules_single o add_schedule_registry)
  have b: "fst (snd (load_schedules a ?fs [fn])) = []"
    by (simp add: load_schedules_single o)
  show ?thesis using e l s d r b by simp
qed

theorem export_import_roundtrip_witness:
  "strip '' Bob '' = ''Bob''
   \<and> schedule (click (click (new_canvas True) 170 80) 70 80) = [((1, 10), True), ((0, 10), True)]
   \<and> in_grid (1, 10) \<and> in_grid (0, 10) \<and> endswith ''bob.tsv'' ''.tsv''
   \<and> load_file (snd (export_schedule '' Bob '' (click (click (new_canvas True) 170 80) 70 80)
                        ''bob.tsv'' Map.empty)) ''bob.tsv''
       = Inr (Some ''Bob'', [(0, 10), (1, 10)])
   \<and> fst (snd (load_schedules init_app
                   (snd (export_schedule '' Bob '' (click (click (new_canvas True) 170 80) 70 80)
                           ''bob.tsv'' Map.empty)) [''bob.tsv''])) = []"
proof -
  let ?c = "click (click (new_canvas True) 170 80) 70 80"
  have n: "strip '' Bob '' = ''Bob''" by code_simp
  have s: "schedule ?c = [((1, 10), True), ((0, 10), True)]" by code_simp
  have g: "in_grid (1, 10)" "in_grid (0, 10)" by code_simp+
  have e: "endswith ''bob.tsv'' ''.tsv''" by code_simp
  have d: "get_schedule_data ?c = [(0, 10), (1, 10)]" by code_simp
  have h1: "strip '' Bob '' \<noteq> []" by (simp add: n)
  have h2: "schedule ?c \<noteq> []" by (simp add: s)
  have h3: "schedule_ok (schedule ?c)" by (simp add: s schedule_ok_def dict_keys_def)
  have h4: "\<forall>cell \<in> set (dict_keys (schedule ?c)). in_grid cell" using g by (simp add: s dict_keys_def)
  show ?thesis
    using export_import_roundtrip [OF h1 h2 h3 h4 e, of Map.empty init_app] n s g e d
    by simp
qed

text \<open>
  Saved under another name, the same file does not load: \<^verbatim>\<open>load_schedules\<close> reads a
  file whose name does not end in \<^verbatim>\<open>.tsv\<close> as comma-separated, finds no column
  \<^verbatim>\<open>day\<close>, and the registry stays empty.
\<close>

theorem export_under_other_name_fails_import:
  "fst (export_schedule ''Bob'' (click (new_canvas True) 170 80) ''bob.csv'' Map.empty)
     = Some (ShowInfo (''Schedule exported to:'' @ [LF] @ ''bob.csv''))
   \<and> get_schedule_data (click (new_canvas True) 170 80) = [(1, 10)]
   \<and> load_file (snd (export_schedule ''Bob'' (click (new_canvas True) 170 80) ''bob.csv'' Map.empty))
        ''bob.csv'' = Inl KeyError
   \<and> load_schedules init_app
        (snd (export_schedule ''Bob'' (click (new_canvas True) 170 80) ''bob.csv'' Map.empty))
        [''bob.csv''] = (init_app, [(''bob.csv'', KeyError)], None)"
  by code_simp

section \<open>Coordinates outside the grid\<close>

lemma keys_dict_pop_subset: "set (dict_keys (dict_pop d k)) \<subseteq> set (dict_keys d)"
  by (induction d k rule: dict_pop.induct) (auto simp: dict_keys_def)

lemma keys_apply_drag:
  "set (dict_keys (foldl (apply_drag m day) d hours))
   \<subseteq> set (dict_keys d) \<union> (\<lambda>hour. (day, hour)) ` set hours"
proof (induction hours arbitrary: d)
  case Nil
  then show ?case by simp
next
  case (Cons h hours)
  have "set (dict_keys (apply_drag m day d h)) \<subseteq> insert (day, h) (set (dict_keys d))"
    using keys_dict_pop_subset [of d "(day, h)"]
    by (auto simp: apply_drag_def set_keys_dict_set)
  then show ?case using Cons.IH [of "apply_drag m day d h"] by auto
qed

lemma canvas_ok_new: "canvas_ok (new_canvas e)"
  by (simp add: canvas_ok_def new_canvas_def dict_keys_def)

lemma canvas_ok_clear: "canvas_ok c \<Longrightarrow> canvas_ok (clear_schedule c)"
  by (simp add: canvas_ok_def clear_schedule_def dict_keys_def)

lemma canvas_ok_down: "canvas_ok c \<Longrightarrow> canvas_ok (on_mouse_down c x y)"
  using get_cell_at_in_grid [of x y]
  by (auto simp: canvas_ok_def on_mouse_down_def split: option.splits)

lemma canvas_ok_drag: "canvas_ok c \<Longrightarrow> canvas_ok (on_mouse_drag c x y)"
  using get_cell_at_in_grid [of x y]
  by (auto simp: canvas_ok_def on_mouse_drag_def split: option.splits)

lemma canvas_ok_up:
  assumes "canvas_ok c"
  shows "canvas_ok (on_mouse_up c)"
proof (cases "drag_start c")
  case None
  then show ?thesis using assms by (simp add: on_mouse_up_def)
next
  case (Some start)
  show ?thesis
  proof (cases "drag_current c")
    case None
    then show ?thesis using assms Some by (auto simp: on_mouse_up_def canvas_ok_def)
  next
    case cur: (Some cur)
    have gs: "in_grid start" and gc: "in_grid cur" using assms Some cur by (simp_all add: canvas_ok_def)
    let ?hours = "[min (snd start) (snd cur) .. max (snd start) (snd cur)]"
    let ?d = "foldl (apply_drag (drag_mode c) (fst start)) (schedule c) ?hours"
    have new: "in_grid (fst start, h)" if "h \<in> set ?hours" for h
      using that gs gc by (auto simp: in_grid_def)
    have "\<forall>cell \<in> set (dict_keys ?d). in_grid cell"
    proof
      fix cell assume "cell \<in> set (dict_keys ?d)"
      then have "cell \<in> set (dict_keys (schedule c)) \<or> cell \<in> (\<lambda>hour. (fst start, hour)) ` set ?hours"
        using keys_apply_drag [of "drag_mode c" "fst start" "schedule c" ?hours] by blast
      then show "in_grid cell" using assms new by (auto simp: canvas_ok_def)
    qed
    then show ?thesis using assms Some cur by (auto simp: on_mouse_up_def canvas_ok_def)
  qed
qed

lemma make_row_coordinates:
  "make_row [''day'', ''hour''] [a, b] = [(''day'', Some a), (''hour'', Some b)]"
  by (simp add: make_row_def)

lemma read_rows_coordinates:
  "read_rows fn (map (make_row [''day'', ''hour''])
       (map (map universal_newlines) (coordinate_rows cells))) un acc
   = Inr (if cells = [] then un else (case un of None \<Rightarrow> Some (basename fn) | Some x \<Rightarrow> Some x),
          acc @ cells)"
proof (induction cells arbitrary: un acc)
  case Nil
  then show ?case by (simp add: coordinate_rows_def)
next
  case (Cons cell cells)
  obtain day hour where c: "cell = (day, hour)" by (cases cell)
  show ?case using Cons.IH
    by (cases un; cases "cells = []")
       (simp_all add: c coordinate_rows_def make_row_coordinates py_int_read_back Let_def)
qed

lemma load_coordinates_file:
  assumes "endswith fn ''.tsv''" and "cells \<noteq> []"
    and "fs fn = Some (concat (map (writerow TAB) ([''day'', ''hour''] # coordinate_rows cells)))"
  shows "load_file fs fn = Inr (Some (basename fn), cells)"
proof -
  let ?h = "[''day'', ''hour'']"
  have h: "map universal_newlines ?h = ?h" by simp
  have "csv_reader TAB (universal_newlines (concat (map (writerow TAB) (?h # coordinate_rows cells))))
        = Inr (map (map universal_newlines) (?h # coordinate_rows cells))"
    using delimiter_ok_TAB by (rule csv_roundtrip)
  then have r: "csv_reader TAB (universal_newlines (concat (map (writerow TAB) (?h # coordinate_rows cells))))
        = Inr (?h # map (map universal_newlines) (coordinate_rows cells))"
    using h by simp
  have f: "filter (\<lambda>r. r \<noteq> []) (map (map universal_newlines) (coordinate_rows cells))
           = map (map universal_newlines) (coordinate_rows cells)"
    by (simp add: coordinate_rows_def filter_id_conv split: prod.splits)
  have d: "dict_reader TAB (universal_newlines (concat (map (writerow TAB) (?h # coordinate_rows cells))))
        = Inr (map (make_row ?h) (map (map universal_newlines) (coordinate_rows cells)))"
    unfolding dict_reader_def r by (simp only: f sum.case list.case)
  show ?thesis
    unfolding load_file_def Let_def using assms(1,2)
    by (simp only: assms(3) option.case d sum.case read_rows_coordinates if_True) simp
qed

text \<open>
  C7 fails on the code: the import has no range check. The file \<^verbatim>\<open>late.tsv\<close> with
  the row (3, 25) loads without an error box and without an exception, and the registry
  then holds the coordinate (3, 25), which is outside the grid.
\<close>

theorem out_of_range_row_admitted:
  "load_schedules init_app out_of_range_fs [''late.tsv'']
     = (\<lparr>loaded_schedules = [(''Eve'', [(3, 25)])], loaded_listbox = [''Eve (1 slots)''],
         overlap_counts = [((3, 25), 1)], total_participants = 1, lbl_part_count = ''1'',
         lbl_match_count = ''1'', tree = [(''Thursday'', ''25:00'')]\<rparr>, [], None)
   \<and> \<not> in_grid (3, 25)"
  by code_simp

text \<open>
  C7, as the code has it. Through the editor no coordinate outside the grid enters an
  availability set: \<^verbatim>\<open>get_cell_at\<close> maps a pixel to a valid cell or to none, and the
  new canvas and every handler keep the schedule (and a drag in progress) inside the
  grid. The import accepts every integer: a tab-separated file with the columns
  \<^verbatim>\<open>day\<close> and \<^verbatim>\<open>hour\<close> that holds any list of integer pairs, in range or not, loads
  with exactly these pairs as the schedule, under the base name of the file.
\<close>

theorem grid_range_by_editing_only:
  "canvas_ok (new_canvas e)
   \<and> (get_cell_at x y = Some cell \<longrightarrow> in_grid cell)
   \<and> (canvas_ok c \<longrightarrow>
        canvas_ok (on_mouse_down c x y) \<and> canvas_ok (on_mouse_drag c x y)
        \<and> canvas_ok (on_mouse_up c) \<and> canvas_ok (clear_schedule c))
   \<and> (endswith fn ''.tsv'' \<and> cells \<noteq> []
        \<and> fs fn = Some (concat (map (writerow TAB) ([''day'', ''hour''] # coordinate_rows cells)))
        \<longrightarrow> load_file fs fn = Inr (Some (basename fn), cells))"
proof -
  have 1: "canvas_ok (new_canvas e)" by (rule canvas_ok_new)
  have 2: "get_cell_at x y = Some cell \<longrightarrow> in_grid cell"
    by (rule impI) (rule get_cell_at_in_grid)
  have 3: "canvas_ok c \<longrightarrow>
        canvas_ok (on_mouse_down c x y) \<and> canvas_ok (on_mouse_drag c x y)
        \<and> canvas_ok (on_mouse_up c) \<and> canvas_ok (clear_schedule c)"
    by (simp add: canvas_ok_down canvas_ok_drag canvas_ok_up canvas_ok_clear)
  have 4: "endswith fn ''.tsv'' \<and> cells \<noteq> []
        \<and> fs fn = Some (concat (map (writerow TAB) ([''day'', ''hour''] # coordinate_rows cells)))
        \<longrightarrow> load_file fs fn = Inr (Some (basename fn), cells)"
  proof (intro impI, elim conjE)
    assume "endswith fn ''.tsv''" and "cells \<noteq> []"
      and "fs fn = Some (concat (map (writerow TAB) ([''day'', ''hour''] # coordinate_rows cells)))"
    then show "load_file fs fn = Inr (Some (basename fn), cells)" by (rule load_coordinates_file)
  qed
  show ?thesis by (rule conjI [OF 1 conjI [OF 2 conjI [OF 3 4]]])
qed

theorem grid_range_by_editing_only_witness:
  "get_cell_at 170 80 = Some (1, 10) \<and> in_grid (1, 10)
   \<and> canvas_ok (on_mouse_down (new_canvas True) 170 80)
   \<and> canvas_ok (on_mouse_drag (on_mouse_down (new_canvas True) 170 80) 170 200)
   \<and> canvas_ok (on_mouse_up (on_mouse_drag (on_mouse_down (new_canvas True) 170 80) 170 200))
   \<and> endswith ''x.tsv'' ''.tsv''
   \<and> load_file [''x.tsv'' \<mapsto> concat (map (writerow TAB) ([''day'', ''hour''] # coordinate_rows [(7, 25), (- 1, 3)]))]
        ''x.tsv'' = Inr (Some ''x.tsv'', [(7, 25), (- 1, 3)])"
proof -
  have at: "get_cell_at 170 80 = Some (1, 10)" by code_simp
  have e: "endswith ''x.tsv'' ''.tsv''" by code_simp
  have b: "basename ''x.tsv'' = ''x.tsv''" by code_simp
  let ?fs = "[''x.tsv'' \<mapsto> concat (map (writerow TAB) ([''day'', ''hour''] # coordinate_rows [(7, 25), (- 1, 3)]))]"
  have f: "?fs ''x.tsv'' = Some (concat (map (writerow TAB) ([''day'', ''hour''] # coordinate_rows [(7, 25), (- 1, 3)])))"
    by simp
  note A = grid_range_by_editing_only [of True 170 80 "(1, 10)" "new_canvas True" "''x.tsv''"
      "[(7, 25), (- 1, 3)]" ?fs]
  note B = grid_range_by_editing_only [of True 170 200 "(1, 13)" "on_mouse_down (new_canvas True) 170 80"
      "''x.tsv''" "[(7, 25), (- 1, 3)]" ?fs]
  note C = grid_range_by_editing_only [of True 170 200 "(1, 13)"
      "on_mouse_drag (on_mouse_down (new_canvas True) 170 80) 170 200"
      "''x.tsv''" "[(7, 25), (- 1, 3)]" ?fs]
  have 1: "in_grid (1, 10)" and 2: "canvas_ok (on_mouse_down (new_canvas True) 170 80)"
    and 5: "load_file ?fs ''x.tsv'' = Inr (Some ''x.tsv'', [(7, 25), (- 1, 3)])"
    using A at e f b by simp_all
  have 3: "canvas_ok (on_mouse_drag (on_mouse_down (new_canvas True) 170 80) 170 200)"
    using B 2 by blast
  have 4: "canvas_ok (on_mouse_up (on_mouse_drag (on_mouse_down (new_canvas True) 170 80) 170 200))"
    using C 3 by blast
  show ?thesis using at e 1 2 3 4 5 by simp
qed

section \<open>Exporting the analysis\<close>

lemma grid_cells_table:
  "length grid_cells = 77
   \<and> list_all (\<lambda>(day, hour). in_grid (day, hour)
                  \<and> grid_cells ! nat (11 * day + (hour - 9)) = (day, hour)) grid_cells
   \<and> sorted_wrt (\<lambda>(d1, h1) (d2, h2). d1 < d2 \<or> (d1 = d2 \<and> h1 < h2)) grid_cells"
  by code_simp

lemma set_grid_cells: "set grid_cells = {cell. in_grid cell}"
proof -
  have "set grid_cells = {0..6} \<times> {9..19}"
    by (auto simp del: upto_rec_numeral simp: grid_cells_def START_HOUR_def END_HOUR_def)
  also have "\<dots> = {cell. in_grid cell}"
    by (auto simp: in_grid_def START_HOUR_def END_HOUR_def DAYS_def)
  finally show ?thesis .
qed

lemma grid_cells_nth:
  assumes "in_grid (day, hour)"
  shows "grid_cells ! nat (11 * day + (hour - 9)) = (day, hour)"
    and "nat (11 * day + (hour - 9)) < 77"
proof -
  have "(day, hour) \<in> set grid_cells" using assms by (simp add: set_grid_cells)
  then show "grid_cells ! nat (11 * day + (hour - 9)) = (day, hour)"
    using grid_cells_table by (auto simp: list_all_iff)
  have "day < 7" "hour < 20" using assms by (simp_all add: in_grid_def END_HOUR_def DAYS_def)
  then have "11 * day + (hour - 9) < 77" by linarith
  then show "nat (11 * day + (hour - 9)) < 77" by simp
qed

lemma analysis_row_in_grid:
  assumes "in_grid (day, hour)" and "0 < n"
  shows "analysis_row oc n day hour
         = Inr [str_int day, DAYS ! nat day, str_int hour, str_int (count_at oc (day, hour)),
                str_int n, percentage (count_at oc (day, hour)) n]"
proof -
  have "0 \<le> day" "day < 7" using assms(1) by (simp_all add: in_grid_def DAYS_def)
  then have "list_index DAYS day = Inr (DAYS ! nat day)" by (rule list_index_DAYS)
  then show ?thesis using assms(2)
    by (simp add: analysis_row_def Let_def truediv_def percentage_def)
qed

lemma write_analysis_rows_in_grid:
  assumes "\<forall>cell \<in> set cells. in_grid cell" and "0 < n"
  shows "write_analysis_rows oc n cells out
         = (out @ concat (map (writerow TAB)
              (map (\<lambda>(day, hour).
                 [str_int day, DAYS ! nat day, str_int hour, str_int (count_at oc (day, hour)),
                  str_int n, percentage (count_at oc (day, hour)) n]) cells)), None)"
  using assms(1)
proof (induction cells arbitrary: out)
  case Nil
  then show ?case by simp
next
  case (Cons cell cells)
  obtain day hour where c: "cell = (day, hour)" by (cases cell)
  have "in_grid (day, hour)" using Cons.prems by (simp add: c)
  then have r: "analysis_row oc n day hour
         = Inr [str_int day, DAYS ! nat day, str_int hour, str_int (count_at oc (day, hour)),
                str_int n, percentage (count_at oc (day, hour)) n]"
    using assms(2) by (rule analysis_row_in_grid)
  have "\<forall>cell \<in> set cells. in_grid cell" using Cons.prems by simp
  then show ?case using Cons.IH r by (simp add: c)
qed

lemma export_analysis_file:
  assumes "loaded_schedules a \<noteq> []" and "fn \<noteq> []"
  shows "export_analysis a fn fs
         = (Some (ShowInfo (''Analysis exported to:'' @ [LF] @ fn)),
            fs(fn \<mapsto> concat (map (writerow TAB)
                 (analysis_header
                  # analysis_rows (count_overlaps (loaded_schedules a))
                      (int (length (loaded_schedules a)))))))"
proof -
  let ?oc = "count_overlaps (loaded_schedules a)"
  let ?n = "int (length (loaded_schedules a))"
  have n: "0 < ?n" using assms(1) by simp
  have g: "\<forall>cell \<in> set grid_cells. in_grid cell" by (simp add: set_grid_cells)
  have "write_analysis_rows ?oc ?n grid_cells (writerow TAB analysis_header)
        = (writerow TAB analysis_header @ concat (map (writerow TAB) (analysis_rows ?oc ?n)), None)"
    unfolding analysis_rows_def using g n by (rule write_analysis_rows_in_grid)
  then show ?thesis using assms
    by (simp add: export_analysis_def Let_def analysis_header_def)
qed

lemma percentage_zero: "0 < n \<Longrightarrow> percentage 0 n = ''0.0%''"
proof -
  have "fmt_1f 0 = ''0.0''" by code_simp
  then show ?thesis by (simp add: percentage_def float_mul_def to_double_def)
qed

lemma length_analysis_rows: "length (analysis_rows oc n) = 77"
  using grid_cells_table by (simp add: analysis_rows_def)

lemma analysis_rows_nth:
  assumes "in_grid (day, hour)"
  shows "analysis_rows oc n ! nat (11 * day + (hour - 9))
         = [str_int day, DAYS ! nat day, str_int hour, str_int (count_at oc (day, hour)),
            str_int n, percentage (count_at oc (day, hour)) n]"
proof -
  have "nat (11 * day + (hour - 9)) < length grid_cells"
    using grid_cells_nth(2) [OF assms] grid_cells_table by simp
  then show ?thesis by (simp add: analysis_rows_def grid_cells_nth(1) [OF assms])
qed

lemma DAYS_no_CR: "\<forall>name \<in> set DAYS. CR \<notin> set name"
  by code_simp

lemma fmt_1f_no_CR: "CR \<notin> set (fmt_1f x)"
  using str_int_no_CR by (simp add: fmt_1f_def Let_def)

lemma analysis_rows_no_CR:
  "map (map universal_newlines) (analysis_rows oc n) = analysis_rows oc n"
proof -
  have "map universal_newlines
          [str_int day, DAYS ! nat day, str_int hour, str_int (count_at oc (day, hour)),
           str_int n, percentage (count_at oc (day, hour)) n]
        = [str_int day, DAYS ! nat day, str_int hour, str_int (count_at oc (day, hour)),
           str_int n, percentage (count_at oc (day, hour)) n]"
    if "(day, hour) \<in> set grid_cells" for day hour
  proof -
    have "in_grid (day, hour)" using that by (simp add: set_grid_cells)
    then have "nat day < length DAYS" by (simp add: in_grid_def nat_less_iff)
    then have "DAYS ! nat day \<in> set DAYS" by (rule nth_mem)
    then have d: "CR \<notin> set (DAYS ! nat day)" using DAYS_no_CR by blast
    have p: "CR \<notin> set (percentage (count_at oc (day, hour)) n)"
      using fmt_1f_no_CR by (simp add: percentage_def)
    show ?thesis
      by (simp add: universal_newlines_id str_int_no_CR d p)
  qed
  then have "\<forall>cell \<in> set grid_cells.
      map universal_newlines
        ((\<lambda>(day, hour). [str_int day, DAYS ! nat day, str_int hour, str_int (count_at oc (day, hour)),
           str_int n, percentage (count_at oc (day, hour)) n]) cell)
      = (\<lambda>(day, hour). [str_int day, DAYS ! nat day, str_int hour, str_int (count_at oc (day, hour)),
           str_int n, percentage (count_at oc (day, hour)) n]) cell"
    by auto
  then show ?thesis by (simp add: analysis_rows_def)
qed

lemma analysis_file_read_back:
  "csv_reader TAB (universal_newlines (concat (map (writerow TAB) (analysis_header # analysis_rows oc n))))
   = Inr (analysis_header # analysis_rows oc n)"
proof -
  have "map universal_newlines analysis_header = analysis_header" by (simp add: analysis_header_def)
  then have "map (map universal_newlines) (analysis_header # analysis_rows oc n)
        = analysis_header # analysis_rows oc n"
    by (simp add: analysis_rows_no_CR)
  then show ?thesis using csv_roundtrip [OF delimiter_ok_TAB, of "analysis_header # analysis_rows oc n"]
    by simp
qed

text \<open>
  With no schedule loaded \<^verbatim>\<open>export_analysis\<close> warns and returns: no file is written,
  so there are no 77 rows with count 0.
\<close>

theorem analysis_export_of_empty_registry:
  "export_analysis init_app ''analysis.tsv'' Map.empty
     = (Some (ShowWarning ''No schedules loaded.''), Map.empty)
   \<and> loaded_schedules init_app = []
   \<and> snd (export_analysis init_app ''analysis.tsv'' Map.empty) ''analysis.tsv'' = None"
  by (simp add: export_analysis_def init_app_def)

text \<open>
  C4, as the code has it. With at least one participant loaded and a file chosen,
  \<^verbatim>\<open>export_analysis\<close> writes the header and exactly 77 data rows, and the file reads
  back as these 78 records. The row of the cell (day, hour) stands at position
  11 * day + (hour - 9), that is, in day-major, hour-minor order, and zero-count cells
  have their rows too. Its fields are the day, the day's name, the hour, the count, the
  total and the percentage: \<^verbatim>\<open>count / total * 100\<close> in floating point, formatted to one
  decimal place, with the sign \<^verbatim>\<open>%\<close>; a count of 0 gives \<^verbatim>\<open>0.0%\<close>. With no participant
  loaded the export is not attempted: a warning is shown and the file system is unchanged.
\<close>

theorem analysis_export_rows:
  "(loaded_schedules a \<noteq> [] \<and> fn \<noteq> [] \<longrightarrow>
      export_analysis a fn fs
      = (Some (ShowInfo (''Analysis exported to:'' @ [LF] @ fn)),
         fs(fn \<mapsto> concat (map (writerow TAB)
              (analysis_header
               # analysis_rows (count_overlaps (loaded_schedules a))
                   (int (length (loaded_schedules a))))))))
   \<and> csv_reader TAB (universal_newlines (concat (map (writerow TAB) (analysis_header # analysis_rows oc n))))
       = Inr (analysis_header # analysis_rows oc n)
   \<and> length (analysis_rows oc n) = 77
   \<and> (in_grid (day, hour) \<longrightarrow>
        analysis_rows oc n ! nat (11 * day + (hour - 9))
        = [str_int day, DAYS ! nat day, str_int hour, str_int (count_at oc (day, hour)),
           str_int n, percentage (count_at oc (day, hour)) n])
   \<and> percentage c n = fmt_1f (float_mul (to_double (of_int c / of_int n)) 100) @ ''%''
   \<and> (0 < n \<longrightarrow> percentage 0 n = ''0.0%'')
   \<and> (loaded_schedules a = [] \<longrightarrow>
        export_analysis a fn fs = (Some (ShowWarning ''No schedules loaded.''), fs))"
proof -
  have 1: "loaded_schedules a \<noteq> [] \<and> fn \<noteq> [] \<longrightarrow>
      export_analysis a fn fs
      = (Some (ShowInfo (''Analysis exported to:'' @ [LF] @ fn)),
         fs(fn \<mapsto> concat (map (writerow TAB)
              (analysis_header
               # analysis_rows (count_overlaps (loaded_schedules a))
                   (int (length (loaded_schedules a)))))))"
    using export_analysis_file [of a fn fs] by blast
  have 2: "csv_reader TAB (universal_newlines (concat (map (writerow TAB) (analysis_header # analysis_rows oc n))))
       = Inr (analysis_header # analysis_rows oc n)"
    by (rule analysis_file_read_back)
  have 3: "length (analysis_rows oc n) = 77" by (rule length_analysis_rows)
  have 4: "in_grid (day, hour) \<longrightarrow>
        analysis_rows oc n ! nat (11 * day + (hour - 9))
        = [str_int day, DAYS ! nat day, str_int hour, str_int (count_at oc (day, hour)),
           str_int n, percentage (count_at oc (day, hour)) n]"
    by (rule impI) (rule analysis_rows_nth)
  have 5: "percentage c n = fmt_1f (float_mul (to_double (of_int c / of_int n)) 100) @ ''%''"
    by (simp add: percentage_def)
  have 6: "0 < n \<longrightarrow> percentage 0 n = ''0.0%''" by (rule impI) (rule percentage_zero)
  have 7: "loaded_schedules a = [] \<longrightarrow>
        export_analysis a fn fs = (Some (ShowWarning ''No schedules loaded.''), fs)"
    by (simp add: export_analysis_def)
  show ?thesis
    by (rule conjI [OF 1 conjI [OF 2 conjI [OF 3 conjI [OF 4 conjI [OF 5 conjI [OF 6 7]]]]]])
qed

lemma scenario_tally:
  "count_at (count_overlaps (loaded_schedules (run [Load scenario_fs [''A.tsv'', ''B.tsv'']]))) (0, 10) = 1
   \<and> count_at (count_overlaps (loaded_schedules (run [Load scenario_fs [''A.tsv'', ''B.tsv'']]))) (6, 19) = 0
   \<and> int (length (loaded_schedules (run [Load scenario_fs [''A.tsv'', ''B.tsv'']]))) = 2
   \<and> percentage 1 2 = ''50.0%''"
  unfolding scenario_run by code_simp

theorem analysis_export_rows_witness:
  "loaded_schedules (run [Load scenario_fs [''A.tsv'', ''B.tsv'']]) \<noteq> [] \<and> ''analysis.tsv'' \<noteq> []
   \<and> fst (export_analysis (run [Load scenario_fs [''A.tsv'', ''B.tsv'']]) ''analysis.tsv'' Map.empty)
       = Some (ShowInfo (''Analysis exported to:'' @ [LF] @ ''analysis.tsv''))
   \<and> in_grid (0, 10) \<and> in_grid (6, 19)
   \<and> analysis_rows (count_overlaps (loaded_schedules (run [Load scenario_fs [''A.tsv'', ''B.tsv'']]))) 2 ! 1
       = [''0'', ''Monday'', ''10'', ''1'', ''2'', ''50.0%'']
   \<and> analysis_rows (count_overlaps (loaded_schedules (run [Load scenario_fs [''A.tsv'', ''B.tsv'']]))) 2 ! 76
       = [''6'', ''Sunday'', ''19'', ''0'', ''2'', ''0.0%'']
   \<and> loaded_schedules init_app = []
   \<and> export_analysis init_app ''analysis.tsv'' Map.empty
       = (Some (ShowWarning ''No schedules loaded.''), Map.empty)"
proof -
  let ?a = "run [Load scenario_fs [''A.tsv'', ''B.tsv'']]"
  let ?oc = "count_overlaps (loaded_schedules ?a)"
  have ne: "loaded_schedules ?a \<noteq> []" by (simp add: scenario_run)
  have g: "in_grid (0, 10)" "in_grid (6, 19)" by code_simp+
  have s: "str_int 0 = ''0''" "str_int 10 = ''10''" "str_int 1 = ''1''" "str_int 2 = ''2''"
    "str_int 6 = ''6''" "str_int 19 = ''19''" "DAYS ! 0 = ''Monday''" "DAYS ! 6 = ''Sunday''"
    "nat (11 * 0 + (10 - 9)) = 1" "nat (11 * 6 + (19 - 9)) = 76"
    by code_simp+
  have e: "loaded_schedules init_app = []" by (simp add: init_app_def)
  note A = analysis_export_rows [of ?a "''analysis.tsv''" Map.empty ?oc 2 0 10 1]
  note B = analysis_export_rows [of init_app "''analysis.tsv''" Map.empty ?oc 2 6 19 0]
  note A1 = A [THEN conjunct1]
  note A4 = A [THEN conjunct2, THEN conjunct2, THEN conjunct2, THEN conjunct1]
  note B4 = B [THEN conjunct2, THEN conjunct2, THEN conjunct2, THEN conjunct1]
  note B6 = B [THEN conjunct2, THEN conjunct2, THEN conjunct2, THEN conjunct2, THEN conjunct2,
      THEN conjunct1]
  note B7 = B [THEN conjunct2, THEN conjunct2, THEN conjunct2, THEN conjunct2, THEN conjunct2,
      THEN conjunct2]
  have 1: "fst (export_analysis ?a ''analysis.tsv'' Map.empty)
       = Some (ShowInfo (''Analysis exported to:'' @ [LF] @ ''analysis.tsv''))"
    using A1 ne by simp
  have "analysis_rows ?oc 2 ! nat (11 * 0 + (10 - 9))
        = [str_int 0, DAYS ! nat 0, str_int 10, str_int (count_at ?oc (0, 10)), str_int 2,
           percentage (count_at ?oc (0, 10)) 2]"
    using A4 g(1) by (rule mp)
  then have 2: "analysis_rows ?oc 2 ! 1 = [''0'', ''Monday'', ''10'', ''1'', ''2'', ''50.0%'']"
    using scenario_tally by (simp add: s)
  have z: "percentage 0 2 = ''0.0%''" using B6 by simp
  have "analysis_rows ?oc 2 ! nat (11 * 6 + (19 - 9))
        = [str_int 6, DAYS ! nat 6, str_int 19, str_int (count_at ?oc (6, 19)), str_int 2,
           percentage (count_at ?oc (6, 19)) 2]"
    using B4 g(2) by (rule mp)
  then have 3: "analysis_rows ?oc 2 ! 76 = [''6'', ''Sunday'', ''19'', ''0'', ''2'', ''0.0%'']"
    using scenario_tally z by (simp add: s)
  have 4: "export_analysis init_app ''analysis.tsv'' Map.empty
       = (Some (ShowWarning ''No schedules loaded.''), Map.empty)"
    using B7 e by (rule mp)
  show ?thesis using ne g 1 2 3 e 4 by simp
qed

section \<open>Further properties\<close>

text \<open>
  The scenario of the specification: with A free at (0,9), (0,10), (1,9) and B free at
  (0,9), (1,9), (1,10), the tally is (0,9) 2, (0,10) 1, (1,9) 2, (1,10) 1, the total is
  2, and the full matches are (0,9) and (1,9).
\<close>

theorem scenario_of_two_participants:
  "overlap_counts (run [Load scenario_fs [''A.tsv'', ''B.tsv'']])
     = [((0, 9), 2), ((0, 10), 1), ((1, 9), 2), ((1, 10), 1)]
   \<and> total_participants (run [Load scenario_fs [''A.tsv'', ''B.tsv'']]) = 2
   \<and> full_overlap_slots (overlap_counts (run [Load scenario_fs [''A.tsv'', ''B.tsv'']]))
         (total_participants (run [Load scenario_fs [''A.tsv'', ''B.tsv'']])) = [(0, 9), (1, 9)]
   \<and> lbl_match_count (run [Load scenario_fs [''A.tsv'', ''B.tsv'']]) = ''2''
   \<and> tree (run [Load scenario_fs [''A.tsv'', ''B.tsv'']]) = [(''Monday'', ''09:00''), (''Tuesday'', ''09:00'')]"
  unfolding scenario_run by code_simp

text \<open>\<^verbatim>\<open>int(str(i))\<close> is \<open>i\<close> for every integer: the file format loses no coordinate.\<close>

theorem int_of_str_is_identity: "py_int (Some (str_int i)) = Inr i"
  by (rule py_int_str_int)

text \<open>
  What \<^verbatim>\<open>csv.writer\<close> writes with a tab as the delimiter, \<^verbatim>\<open>csv.reader\<close> reads back
  row by row and field by field, whatever the fields contain (tabs, quotes, line breaks);
  only a carriage return inside a field arrives as a line feed.
\<close>

theorem tsv_reads_back:
  "csv_reader TAB (universal_newlines (concat (map (writerow TAB) rows)))
   = Inr (map (map universal_newlines) rows)"
  using delimiter_ok_TAB by (rule csv_roundtrip)

text \<open>
  A loaded day outside \<^verbatim>\<open>DAYS\<close> that is a full match makes \<^verbatim>\<open>update_overlaps\<close> raise
  \<^verbatim>\<open>IndexError\<close> while it fills the tree view; the call is outside the \<^verbatim>\<open>try\<close>, so the
  exception leaves \<^verbatim>\<open>load_schedules\<close> after the registry has been changed.
\<close>

theorem eighth_day_raises_after_loading:
  "load_schedules init_app eighth_day_fs [''week.tsv'']
     = (\<lparr>loaded_schedules = [(''Eve'', [(7, 9)])], loaded_listbox = [''Eve (1 slots)''],
         overlap_counts = [((7, 9), 1)], total_participants = 1, lbl_part_count = ''1'',
         lbl_match_count = ''1'', tree = []\<rparr>, [], Some IndexError)"
  by code_simp

text \<open>
  The sorted list of a schedule is strictly ascending by (day, hour), and the handlers
  of the editor keep the keys of the schedule distinct.
\<close>

lemma distinct_apply_drag:
  "distinct (dict_keys d) \<Longrightarrow> distinct (dict_keys (foldl (apply_drag m day) d hours))"
proof (induction hours arbitrary: d)
  case Nil
  then show ?case by simp
next
  case (Cons h hours)
  have "distinct (dict_keys (apply_drag m day d h))"
    using Cons.prems by (simp add: apply_drag_def distinct_dict_set distinct_dict_pop)
  then show ?case using Cons.IH by simp
qed

theorem sorted_list_strictly_ascending:
  "distinct (dict_keys (schedule (new_canvas e)))
   \<and> (distinct (dict_keys (schedule c)) \<longrightarrow>
        distinct (dict_keys (schedule (on_mouse_down c x y)))
        \<and> distinct (dict_keys (schedule (on_mouse_drag c x y)))
        \<and> distinct (dict_keys (schedule (on_mouse_up c)))
        \<and> distinct (dict_keys (schedule (clear_schedule c)))
        \<and> sorted_wrt (\<lambda>(d1, h1) (d2, h2). d1 < d2 \<or> (d1 = d2 \<and> h1 < h2)) (get_schedule_data c))"
proof -
  have 1: "distinct (dict_keys (schedule (new_canvas e)))"
    by (simp add: new_canvas_def dict_keys_def)
  have 2: "distinct (dict_keys (schedule c)) \<longrightarrow>
        distinct (dict_keys (schedule (on_mouse_down c x y)))
        \<and> distinct (dict_keys (schedule (on_mouse_drag c x y)))
        \<and> distinct (dict_keys (schedule (on_mouse_up c)))
        \<and> distinct (dict_keys (schedule (clear_schedule c)))
        \<and> sorted_wrt (\<lambda>(d1, h1) (d2, h2). d1 < d2 \<or> (d1 = d2 \<and> h1 < h2)) (get_schedule_data c)"
  proof
    assume d: "distinct (dict_keys (schedule c))"
    have a: "distinct (dict_keys (schedule (on_mouse_down c x y)))"
      using d by (simp add: on_mouse_down_def split: option.splits)
    have b: "distinct (dict_keys (schedule (on_mouse_drag c x y)))"
      using d by (simp add: on_mouse_drag_def split: option.splits)
    have u: "distinct (dict_keys (schedule (on_mouse_up c)))"
      using d distinct_apply_drag [OF d]
      by (simp add: on_mouse_up_def split: option.splits)
    have k: "distinct (dict_keys (schedule (clear_schedule c)))"
      by (simp add: clear_schedule_def dict_keys_def)
    have s: "sorted_wrt (\<lambda>(d1, h1) (d2, h2). d1 < d2 \<or> (d1 = d2 \<and> h1 < h2)) (get_schedule_data c)"
      unfolding get_schedule_data_def using d by (intro strictly_ascending) simp_all
    show "distinct (dict_keys (schedule (on_mouse_down c x y)))
        \<and> distinct (dict_keys (schedule (on_mouse_drag c x y)))
        \<and> distinct (dict_keys (schedule (on_mouse_up c)))
        \<and> distinct (dict_keys (schedule (clear_schedule c)))
        \<and> sorted_wrt (\<lambda>(d1, h1) (d2, h2). d1 < d2 \<or> (d1 = d2 \<and> h1 < h2)) (get_schedule_data c)"
      using a b u k s by blast
  qed
  show ?thesis using 1 2 by (rule conjI)
qed

theorem sorted_list_strictly_ascending_witness:
  "distinct (dict_keys (schedule (click (click (new_canvas True) 170 80) 70 80)))
   \<and> get_schedule_data (click (click (new_canvas True) 170 80) 70 80) = [(0, 10), (1, 10)]
   \<and> sorted_wrt (\<lambda>(d1, h1) (d2, h2). d1 < d2 \<or> (d1 = d2 \<and> h1 < h2)) [(0 :: int, 10 :: int), (1, 10)]"
proof -
  let ?c = "click (click (new_canvas True) 170 80) 70 80"
  have d: "distinct (dict_keys (schedule ?c))" by code_simp
  have g: "get_schedule_data ?c = [(0, 10), (1, 10)]" by code_simp
  have "sorted_wrt (\<lambda>(d1, h1) (d2, h2). d1 < d2 \<or> (d1 = d2 \<and> h1 < h2)) (get_schedule_data ?c)"
    using sorted_list_strictly_ascending [of True ?c 0 0] d by blast
  then show ?thesis using d g by simp
qed

end
